theory Spec2Isabelle
  imports Main "HOL-Library.Word" "HOL-Library.Monad_Syntax"
begin

section \<open>actorlib: the result (future) of an actor's computation\<close>

text \<open>
  The library is \<^verbatim>\<open>source/actorlib.hpp\<close> and \<^verbatim>\<open>source/actorlib.cpp\<close>.
  A \<^verbatim>\<open>result<R>\<close> is a handle object holding one pointer \<^verbatim>\<open>m_data\<close> to a shared,
  reference-counted \<^verbatim>\<open>result<R>::data\<close>. The model keeps an explicit store of data
  objects (addresses to records) and a table of the live handle objects, because the
  properties proved below depend on which handles alias which storage.

  Every method of \<^verbatim>\<open>data\<close> holds \<^verbatim>\<open>m_mutex\<close> for its whole body, so each method is
  one atomic step of the model and the mutex is free between steps. The one exception
  is \<^verbatim>\<open>get\<close>, which may suspend in \<^verbatim>\<open>pthread_cond_wait\<close> (releasing the mutex) and is
  therefore two steps. In \<^verbatim>\<open>set\<close> the signal follows the unlock; a \<^verbatim>\<open>get\<close> that runs
  between the two sees the flag set and does not wait, exactly as if it ran after the
  signal, so \<^verbatim>\<open>set\<close> is one step.
\<close>

type_synonym addr = nat
type_synonym tid = nat
type_synonym hid = nat
type_synonym size_t = "64 word"

text \<open>
  \<^verbatim>\<open>struct data\<close> (actorlib.hpp, lines 85-147). The field \<open>m_cond\<close> holds what the
  condition variable holds: the threads suspended in \<^verbatim>\<open>pthread_cond_wait\<close> on it.
\<close>

record 'v data =
  m_ref_count :: size_t
  m_value :: 'v
  m_value_set :: bool
  m_cond :: "tid list"

text \<open>The constructor \<^verbatim>\<open>data(const R &v)\<close>.\<close>

definition data_init :: "'v \<Rightarrow> 'v data" where
  "data_init v = \<lparr>m_ref_count = 1, m_value = v, m_value_set = False, m_cond = []\<rparr>"

text \<open>\<^verbatim>\<open>inc_ref\<close>: \<^verbatim>\<open>++m_ref_count\<close> on a \<^verbatim>\<open>size_t\<close>.\<close>

definition inc_ref :: "'v data \<Rightarrow> 'v data" where
  "inc_ref d = d\<lparr>m_ref_count := m_ref_count d + 1\<rparr>"

text \<open>
  \<^verbatim>\<open>dec_ref\<close>: \<^verbatim>\<open>bool delete_this = --m_ref_count == 0; if (delete_this) delete this;\<close>
  The result \<open>None\<close> is the deleted object.
\<close>

definition dec_ref :: "'v data \<Rightarrow> 'v data option" where
  "dec_ref d =
     (let d' = d\<lparr>m_ref_count := m_ref_count d - 1\<rparr>
      in if m_ref_count d' = 0 then None else Some d')"

text \<open>
  \<^verbatim>\<open>get\<close>: \<^verbatim>\<open>if (!m_value_set) pthread_cond_wait(&m_cond, &m_mutex); R r = m_value; return r;\<close>
  The first step either suspends thread \<open>t\<close> on the condition variable (\<open>Inl\<close>) or
  returns the value (\<open>Inr\<close>). The second step, \<open>get_wakeup\<close>, is what a woken thread does
  once it holds the mutex again: it reads \<open>m_value\<close>; the flag is not tested again.
\<close>

definition get_data :: "tid \<Rightarrow> 'v data \<Rightarrow> 'v data + 'v" where
  "get_data t d =
     (if \<not> m_value_set d then Inl (d\<lparr>m_cond := m_cond d @ [t]\<rparr>) else Inr (m_value d))"

definition get_wakeup :: "'v data \<Rightarrow> 'v" where
  "get_wakeup d = m_value d"

text \<open>
  \<^verbatim>\<open>pthread_cond_signal\<close> (POSIX): unblocks at least one of the threads blocked on the
  condition variable, if any is. Which one is the scheduler's choice \<open>w\<close>; the function
  is \<open>None\<close> where the choice is not a possible one. Further threads leaving the wait at
  the same time are the spurious wakeups below.
\<close>

definition pthread_cond_signal :: "tid option \<Rightarrow> tid list \<Rightarrow> tid list option" where
  "pthread_cond_signal w ws =
     (case w of
        None \<Rightarrow> if ws = [] then Some [] else None
      | Some t \<Rightarrow> if t \<in> set ws then Some (remove1 t ws) else None)"

text \<open>
  \<^verbatim>\<open>set\<close>: \<^verbatim>\<open>m_value = v; m_value_set = true; pthread_cond_signal(&m_cond);\<close>
\<close>

definition set_data :: "'v \<Rightarrow> tid option \<Rightarrow> 'v data \<Rightarrow> 'v data option" where
  "set_data v w d =
     do {
       ws \<leftarrow> pthread_cond_signal w (m_cond d);
       Some (d\<lparr>m_value := v, m_value_set := True, m_cond := ws\<rparr>)
     }"

subsection \<open>Handles, store and threads\<close>

text \<open>
  What a thread is doing with respect to \<^verbatim>\<open>get\<close>: running (\<open>Ready\<close>, or \<open>Returned v\<close>
  when its last \<^verbatim>\<open>get\<close> returned \<open>v\<close>), suspended in \<^verbatim>\<open>pthread_cond_wait\<close> of the data
  object at an address, or woken and about to take the mutex again.
\<close>

datatype 'v thread = Ready | Returned 'v | In_cond_wait addr | Woken addr

fun blocked :: "'v thread \<Rightarrow> bool" where
  "blocked (In_cond_wait a) = True"
| "blocked (Woken a) = True"
| "blocked Ready = False"
| "blocked (Returned v) = False"

record 'v results =
  heap :: "addr \<Rightarrow> 'v data option"
  handles :: "(hid \<times> addr) list"
  threads :: "tid \<Rightarrow> 'v thread"

definition results_init :: "'v results" where
  "results_init = \<lparr>heap = (\<lambda>a. None), handles = [], threads = (\<lambda>t. Ready)\<rparr>"

text \<open>
  A handle object occupies the eight bytes of its pointer, so fewer than \<open>2 ^ 61\<close> of them
  exist at a time in a 64-bit address space.
\<close>

definition max_handles :: nat where
  "max_handles = 2 ^ 61"

text \<open>The number of live handles whose \<^verbatim>\<open>m_data\<close> is the address \<open>a\<close>.\<close>

definition aliases :: "addr \<Rightarrow> (hid \<times> addr) list \<Rightarrow> nat" where
  "aliases a hs = length (filter (\<lambda>p. snd p = a) hs)"

definition m_data :: "'v results \<Rightarrow> hid \<Rightarrow> addr option" where
  "m_data s h = map_of (handles s) h"

text \<open>\<^verbatim>\<open>m_data->inc_ref()\<close> and \<^verbatim>\<open>m_data->dec_ref()\<close> on the store.\<close>

definition heap_inc_ref :: "addr \<Rightarrow> (addr \<Rightarrow> 'v data option) \<Rightarrow> (addr \<Rightarrow> 'v data option) option" where
  "heap_inc_ref a hp = (case hp a of None \<Rightarrow> None | Some d \<Rightarrow> Some (hp(a := Some (inc_ref d))))"

definition heap_dec_ref :: "addr \<Rightarrow> (addr \<Rightarrow> 'v data option) \<Rightarrow> (addr \<Rightarrow> 'v data option) option" where
  "heap_dec_ref a hp = (case hp a of None \<Rightarrow> None | Some d \<Rightarrow> Some (hp(a := dec_ref d)))"

text \<open>
  The operations of \<^verbatim>\<open>result<R>\<close> (actorlib.hpp, lines 18-81) and what the environment
  does to a waiting thread:
  \<^item> \<open>New h a v\<close>: the constructor \<^verbatim>\<open>result(const R &v)\<close> of the handle \<open>h\<close>, where
    \<^verbatim>\<open>new data(v)\<close> returns the unused address \<open>a\<close>;
  \<^item> \<open>Copy h r\<close>: the copy constructor of a new handle \<open>h\<close> from \<open>r\<close>;
  \<^item> \<open>Destroy h\<close>: the destructor;
  \<^item> \<open>Assign h r\<close>: \<^verbatim>\<open>h = r\<close> with \<open>r\<close> a result;
  \<^item> \<open>Get t h\<close>: thread \<open>t\<close> calls \<^verbatim>\<open>h.get()\<close>;
  \<^item> \<open>Wakeup t\<close>: the woken thread \<open>t\<close> takes the mutex again and returns from \<^verbatim>\<open>get\<close>;
  \<^item> \<open>Set h v w\<close>: \<^verbatim>\<open>h.set(v)\<close>, the signal waking \<open>w\<close>;
  \<^item> \<open>Spurious t\<close>: \<^verbatim>\<open>pthread_cond_wait\<close> of thread \<open>t\<close> returns with no signal, which
    POSIX allows ("spurious wakeups from the pthread_cond_wait function may occur").
  A step is \<open>None\<close> where the operation cannot happen: the handle is not alive, the
  thread is suspended, the address or handle identity is already in use.
\<close>

datatype 'v op =
    New hid addr 'v
  | Copy hid hid
  | Destroy hid
  | Assign hid hid
  | Get tid hid
  | Wakeup tid
  | Set hid 'v "tid option"
  | Spurious tid

definition wake :: "tid option \<Rightarrow> addr \<Rightarrow> (tid \<Rightarrow> 'v thread) \<Rightarrow> (tid \<Rightarrow> 'v thread)" where
  "wake w a ts = (case w of None \<Rightarrow> ts | Some t \<Rightarrow> ts(t := Woken a))"

fun result_step :: "'v op \<Rightarrow> 'v results \<Rightarrow> 'v results option" where
  "result_step (New h a v) s =
     (if m_data s h = None \<and> heap s a = None \<and> length (handles s) < max_handles
      then Some (s\<lparr>heap := (heap s)(a := Some (data_init v)), handles := (h, a) # handles s\<rparr>)
      else None)"
| "result_step (Copy h r) s =
     (if m_data s h = None \<and> length (handles s) < max_handles
      then do {
        a \<leftarrow> m_data s r;
        hp \<leftarrow> heap_inc_ref a (heap s);
        Some (s\<lparr>heap := hp, handles := (h, a) # handles s\<rparr>)
      }
      else None)"
| "result_step (Destroy h) s =
     do {
       a \<leftarrow> m_data s h;
       hp \<leftarrow> heap_dec_ref a (heap s);
       Some (s\<lparr>heap := hp, handles := filter (\<lambda>p. fst p \<noteq> h) (handles s)\<rparr>)
     }"
| "result_step (Assign h r) s =
     do {
       ar \<leftarrow> m_data s r;
       ah \<leftarrow> m_data s h;
       hp1 \<leftarrow> heap_inc_ref ar (heap s);
       hp2 \<leftarrow> heap_dec_ref ah hp1;
       Some (s\<lparr>heap := hp2,
               handles := map (\<lambda>p. if fst p = h then (h, ar) else p) (handles s)\<rparr>)
     }"
| "result_step (Get t h) s =
     (if blocked (threads s t) then None
      else do {
        a \<leftarrow> m_data s h;
        d \<leftarrow> heap s a;
        (case get_data t d of
           Inl d' \<Rightarrow> Some (s\<lparr>heap := (heap s)(a := Some d'),
                             threads := (threads s)(t := In_cond_wait a)\<rparr>)
         | Inr v \<Rightarrow> Some (s\<lparr>threads := (threads s)(t := Returned v)\<rparr>))
      })"
| "result_step (Wakeup t) s =
     (case threads s t of
        Woken a \<Rightarrow>
          do {
            d \<leftarrow> heap s a;
            Some (s\<lparr>threads := (threads s)(t := Returned (get_wakeup d))\<rparr>)
          }
      | _ \<Rightarrow> None)"
| "result_step (Set h v w) s =
     do {
       a \<leftarrow> m_data s h;
       d \<leftarrow> heap s a;
       d' \<leftarrow> set_data v w d;
       Some (s\<lparr>heap := (heap s)(a := Some d'), threads := wake w a (threads s)\<rparr>)
     }"
| "result_step (Spurious t) s =
     (case threads s t of
        In_cond_wait a \<Rightarrow>
          do {
            d \<leftarrow> heap s a;
            if t \<in> set (m_cond d)
            then Some (s\<lparr>heap := (heap s)(a := Some (d\<lparr>m_cond := remove1 t (m_cond d)\<rparr>)),
                         threads := (threads s)(t := Woken a)\<rparr>)
            else None
          }
      | _ \<Rightarrow> None)"

text \<open>A sequence of operations, stopping at the first that cannot happen.\<close>

fun result_run :: "'v op list \<Rightarrow> 'v results \<Rightarrow> 'v results option" where
  "result_run [] s = Some s"
| "result_run (e # es) s = (case result_step e s of None \<Rightarrow> None | Some s' \<Rightarrow> result_run es s')"


text \<open>
  The reference counts agree with the handle table: a data object is allocated exactly
  when some live handle points to it, and its count is the number of those handles.
\<close>

definition tallied :: "(addr \<Rightarrow> 'v data option) \<Rightarrow> (hid \<times> addr) list \<Rightarrow> addr \<Rightarrow> bool" where
  "tallied hp hs a \<longleftrightarrow>
     (case hp a of
        None \<Rightarrow> aliases a hs = 0
      | Some d \<Rightarrow> 0 < aliases a hs \<and> unat (m_ref_count d) = aliases a hs)"

definition counted :: "'v results \<Rightarrow> bool" where
  "counted s \<longleftrightarrow>
     distinct (map fst (handles s)) \<and> length (handles s) \<le> max_handles \<and>
     (\<forall>a. tallied (heap s) (handles s) a)"

section \<open>The bounded-arity ladder of \<^verbatim>\<open>put\<close>\<close>

text \<open>
  What the templates of actorlib.hpp accept is decided at compile time. The model lists
  the overloads that the header declares and resolves a call against them; a call with
  no matching overload is a compile error.
\<close>

datatype ret = Void | Non_void

datatype compile_error = No_matching_put | No_message_class | No_matching_exec

text \<open>
  The protected \<^verbatim>\<open>put\<close> templates (lines 186-211), by number of bound arguments:
  \<^verbatim>\<open>put(R (C::*f)())\<close>, \<^verbatim>\<open>put(R (C::*f)(const T1 &), const T1 &)\<close> and
  \<^verbatim>\<open>put(R (C::*f)(const T1 &, const T2 &), const T1 &, const T2 &)\<close>.
\<close>

definition put_overloads :: "nat list" where
  "put_overloads = [0, 1, 2]"

text \<open>The message classes \<^verbatim>\<open>object_message_0\<close> to \<^verbatim>\<open>object_message_9\<close> (lines 416-703).\<close>

definition object_messages :: "nat list" where
  "object_messages = [0, 1, 2, 3, 4, 5, 6, 7, 8, 9]"

text \<open>
  The overloads of \<^verbatim>\<open>invoker<C, R>::exec\<close>, by number of arguments: the type of the
  parameter \<^verbatim>\<open>r\<close> and the return type of the member function \<^verbatim>\<open>f\<close>, where \<open>Non_void\<close>
  stands for the template parameter \<^verbatim>\<open>R\<close>. In the primary template (lines 222-305) the
  overloads for 0 and 1 arguments take \<^verbatim>\<open>result<R> &\<close> and \<^verbatim>\<open>R (C::*)(...)\<close>; those for
  2 to 9 arguments take \<^verbatim>\<open>result<void> &\<close> and \<^verbatim>\<open>void (C::*)(...)\<close>. The specialisation
  \<^verbatim>\<open>invoker<C, void>\<close> (lines 308-390) takes \<^verbatim>\<open>result<void> &\<close> and
  \<^verbatim>\<open>void (C::*)(...)\<close> throughout.
\<close>

fun invoker :: "ret \<Rightarrow> (nat \<times> ret \<times> ret) list" where
  "invoker Non_void =
     [(0, Non_void, Non_void), (1, Non_void, Non_void),
      (2, Void, Void), (3, Void, Void), (4, Void, Void), (5, Void, Void),
      (6, Void, Void), (7, Void, Void), (8, Void, Void), (9, Void, Void)]"
| "invoker Void =
     [(0, Void, Void), (1, Void, Void), (2, Void, Void), (3, Void, Void), (4, Void, Void),
      (5, Void, Void), (6, Void, Void), (7, Void, Void), (8, Void, Void), (9, Void, Void)]"

text \<open>
  A call \<^verbatim>\<open>put(f, t1, ..., tn)\<close> with \<open>f\<close> a member function of return type \<open>r\<close>: the
  \<^verbatim>\<open>put\<close> overload for \<open>n\<close> arguments is chosen, it instantiates
  \<^verbatim>\<open>object_message_n<C, R, ...>\<close>, whose \<^verbatim>\<open>exec\<close> calls
  \<^verbatim>\<open>invoker<C, R>::exec(m_result, m_object, m_function, m_t1, ...)\<close> with
  \<^verbatim>\<open>m_result\<close> a \<^verbatim>\<open>result<R>\<close> and \<^verbatim>\<open>m_function\<close> returning \<open>R\<close>.
\<close>

definition put_template :: "ret \<Rightarrow> nat \<Rightarrow> compile_error + unit" where
  "put_template r n =
     (if n \<notin> set put_overloads then Inl No_matching_put
      else if n \<notin> set object_messages then Inl No_message_class
      else if map_of (invoker r) n = Some (r, r) then Inr ()
      else Inl No_matching_exec)"

section \<open>The actor: mailbox, worker thread and destructor\<close>

text \<open>
  \<^verbatim>\<open>&actor::_exit\<close>, or a member function of the derived class \<^verbatim>\<open>C\<close> (identified by a
  number). What the member functions of \<^verbatim>\<open>C\<close> do is a parameter \<open>body\<close> of the model:
  \<open>body f args st\<close> is the state of the derived object after \<open>f\<close> ran on \<open>st\<close> with the
  bound arguments, and the value returned. Member functions are taken to return, without
  throwing; what a member function does to results or to actors (its own or others) is
  not part of \<open>body\<close> but steps of the system like those of any other thread.
\<close>

datatype bound_function = Actor_exit | Method nat

text \<open>
  \<^verbatim>\<open>object_message_n<C, R, T1, ..., Tn>\<close>: the bound function, the captured arguments
  and the message's own copy of the result handle (none for \<^verbatim>\<open>result<void>\<close>, which is
  an empty class). \<^verbatim>\<open>m_object\<close> is always the actor itself.
\<close>

datatype 'v message =
  Object_message (m_function: bound_function) (m_args: "'v list") (m_result: "hid option")

text \<open>
  Where the worker thread is in \<^verbatim>\<open>actor::run\<close> (actorlib.cpp, lines 46-63): at the
  test of \<^verbatim>\<open>while (m_loop)\<close>, at \<^verbatim>\<open>sem_wait\<close>, after \<^verbatim>\<open>sem_wait\<close> returned and before the
  synchronized block, at \<^verbatim>\<open>msg->exec()\<close> with the message taken from the list, stopped by
  the failed \<^verbatim>\<open>assert\<close>, or returned from \<^verbatim>\<open>run\<close>.
\<close>

datatype 'v worker =
    At_loop_test
  | At_sem_wait
  | At_pop
  | At_exec "'v message"
  | Assert_failed
  | Thread_returned

text \<open>
  The actor object and what surrounds it. \<open>m_sem\<close> is the value of the semaphore:
  \<^verbatim>\<open>sem_post\<close> adds one (the value is taken to stay below \<^verbatim>\<open>SEM_VALUE_MAX\<close>), and
  \<^verbatim>\<open>sem_wait\<close> returns either by taking one or, taking none, because a signal handler
  of the host program interrupted it (\<^verbatim>\<open>EINTR\<close>); \<^verbatim>\<open>run\<close> ignores its return value.
  \<open>m_thread\<close> is where the worker thread is. \<open>posting\<close> holds the threads that are
  inside \<^verbatim>\<open>actor::put(message *)\<close> between the unlock and \<^verbatim>\<open>sem_post\<close>. \<open>destructor\<close>
  is the thread that has entered \<^verbatim>\<open>~actor\<close>, \<open>joined\<close> says that its \<^verbatim>\<open>pthread_join\<close>
  has returned. \<open>enqueued\<close> and \<open>executed\<close> are the history: every message passed to
  \<^verbatim>\<open>push_back\<close>, and every message whose \<^verbatim>\<open>exec\<close> has returned, in order.
\<close>

record ('st, 'v) actor =
  m_loop :: bool
  m_messages :: "'v message list"
  m_sem :: nat
  m_thread :: "'v worker"
  derived :: 'st
  posting :: "tid list"
  destructor :: "tid option"
  joined :: bool
  futures :: "'v results"
  enqueued :: "'v message list"
  executed :: "'v message list"

text \<open>
  The constructor: \<^verbatim>\<open>m_loop = true; sem_init(&m_sem, 0, 0); pthread_create(...)\<close>.
\<close>

definition actor_init :: "'st \<Rightarrow> ('st, 'v) actor" where
  "actor_init st =
     \<lparr>m_loop = True, m_messages = [], m_sem = 0, m_thread = At_loop_test, derived = st,
      posting = [], destructor = None, joined = False, futures = results_init,
      enqueued = [], executed = []\<rparr>"

definition in_flight :: "('st, 'v) actor \<Rightarrow> 'v message list" where
  "in_flight s = (case m_thread s of At_exec msg \<Rightarrow> [msg] | _ \<Rightarrow> [])"

text \<open>The result handles that are private members of messages not yet deleted.\<close>

definition owned :: "('st, 'v) actor \<Rightarrow> hid list" where
  "owned s = List.map_filter m_result (in_flight s @ m_messages s)"

fun op_handles :: "'v op \<Rightarrow> hid list" where
  "op_handles (New h a v) = [h]"
| "op_handles (Copy h r) = [h, r]"
| "op_handles (Destroy h) = [h]"
| "op_handles (Assign h r) = [h, r]"
| "op_handles (Get t h) = [h]"
| "op_handles (Wakeup t) = []"
| "op_handles (Set h v w) = [h]"
| "op_handles (Spurious t) = []"

text \<open>
  A thread can call into the actor when the actor has not been destroyed, the thread is
  not already inside \<^verbatim>\<open>put\<close> or the destructor, and it is not suspended in a \<^verbatim>\<open>get\<close>.
\<close>

definition can_call :: "('st, 'v) actor \<Rightarrow> tid \<Rightarrow> bool" where
  "can_call s t \<longleftrightarrow>
     \<not> joined s \<and> t \<notin> set (posting s) \<and> destructor s \<noteq> Some t \<and>
     \<not> blocked (threads (futures s) t)"

text \<open>
  \<^verbatim>\<open>actor::put(message *msg)\<close> (actorlib.cpp, lines 31-36) is two steps of the calling
  thread: \<^verbatim>\<open>lock; m_messages.push_back(msg); unlock\<close>, then \<^verbatim>\<open>sem_post(&m_sem)\<close>.
\<close>

definition push_back :: "tid \<Rightarrow> 'v message \<Rightarrow> ('st, 'v) actor \<Rightarrow> ('st, 'v) actor" where
  "push_back t msg s =
     s\<lparr>m_messages := m_messages s @ [msg], posting := t # posting s,
       enqueued := enqueued s @ [msg]\<rparr>"

definition sem_post :: "tid \<Rightarrow> ('st, 'v) actor \<Rightarrow> ('st, 'v) actor" where
  "sem_post t s = s\<lparr>m_sem := m_sem s + 1, posting := remove1 t (posting s)\<rparr>"

text \<open>\<^verbatim>\<open>actor::_exit\<close>: \<^verbatim>\<open>m_loop = false\<close>.\<close>

definition exit_actor :: "('st, 'v) actor \<Rightarrow> ('st, 'v) actor" where
  "exit_actor s = s\<lparr>m_loop := False\<rparr>"

text \<open>
  \<^verbatim>\<open>msg->exec()\<close>: \<^verbatim>\<open>invoker<C, void>::exec\<close> calls the bound function;
  \<^verbatim>\<open>invoker<C, R>::exec\<close> assigns its value to the result, which is
  \<^verbatim>\<open>m_data->set(v)\<close> (\<^verbatim>\<open>operator = (const R &v)\<close>, line 78).
\<close>

definition exec :: "(nat \<Rightarrow> 'v list \<Rightarrow> 'st \<Rightarrow> 'st \<times> 'v) \<Rightarrow> tid option \<Rightarrow> 'v message \<Rightarrow>
    ('st, 'v) actor \<Rightarrow> ('st, 'v) actor option" where
  "exec body w msg s =
     (case m_function msg of
        Actor_exit \<Rightarrow> Some (exit_actor s)
      | Method f \<Rightarrow>
          (case body f (m_args msg) (derived s) of
             (st, v) \<Rightarrow>
               (case m_result msg of
                  None \<Rightarrow> Some (s\<lparr>derived := st\<rparr>)
                | Some h \<Rightarrow>
                    do {
                      fs \<leftarrow> result_step (Set h v w) (futures s);
                      Some (s\<lparr>derived := st, futures := fs\<rparr>)
                    })))"

text \<open>\<^verbatim>\<open>delete msg\<close>: the destructor of the message destroys its \<^verbatim>\<open>m_result\<close>.\<close>

definition delete_message :: "'v message \<Rightarrow> ('st, 'v) actor \<Rightarrow> ('st, 'v) actor option" where
  "delete_message msg s =
     (case m_result msg of
        None \<Rightarrow> Some s
      | Some h \<Rightarrow>
          do {
            fs \<leftarrow> result_step (Destroy h) (futures s);
            Some (s\<lparr>futures := fs\<rparr>)
          })"

text \<open>
  The steps of the system:
  \<^item> \<open>Result_op e\<close>: a thread uses result handles of its own (never one that is a
    private member of a message);
  \<^item> \<open>Put t f args r\<close>: thread \<open>t\<close> calls the \<^verbatim>\<open>put\<close> template with the member function
    \<open>f\<close> and the arguments \<open>args\<close>, up to and including \<^verbatim>\<open>push_back\<close>. For a
    non-void \<open>f\<close>, \<open>r = Some (h, hm, a)\<close>: \<^verbatim>\<open>result<R> r;\<close> is the handle \<open>h\<close> with fresh
    storage at \<open>a\<close> holding \<^verbatim>\<open>R()\<close> (the zero of the value type), the message's copy
    is \<open>hm\<close>, and \<open>h\<close> is what the caller receives (\<^verbatim>\<open>return r;\<close> either is \<open>r\<close> itself
    or copies it and destroys \<open>r\<close>, which leaves the count as it was);
  \<^item> \<open>Exit t\<close>: thread \<open>t\<close> calls \<^verbatim>\<open>exit()\<close>, which is \<^verbatim>\<open>put(&actor::_exit)\<close>, up to
    and including \<^verbatim>\<open>push_back\<close>;
  \<^item> \<open>Sem_post t\<close>: thread \<open>t\<close> finishes its \<^verbatim>\<open>put\<close>;
  \<^item> \<open>Loop_test\<close>, \<open>Sem_wait\<close>, \<open>Pop\<close>, \<open>Exec w\<close>: the worker thread in \<^verbatim>\<open>run\<close>;
    \<open>Sem_wait\<close> is \<^verbatim>\<open>sem_wait\<close> returning 0, having taken a unit of the semaphore;
    \<open>Exec w\<close> is \<^verbatim>\<open>msg->exec(); delete msg;\<close>, the signal of the result waking \<open>w\<close>;
  \<^item> \<open>Sem_wait_interrupted\<close>: \<^verbatim>\<open>sem_wait\<close> returns -1 with \<^verbatim>\<open>EINTR\<close>, the semaphore
    untouched, and the worker goes on to the synchronized block as after a successful
    wait, since the return value is not looked at;
  \<^item> \<open>Destructor t\<close>: thread \<open>t\<close> enters \<^verbatim>\<open>~actor\<close> and runs its \<^verbatim>\<open>exit()\<close> up to and
    including \<^verbatim>\<open>push_back\<close>;
  \<^item> \<open>Join\<close>: \<^verbatim>\<open>pthread_join\<close> in the destructor returns, which needs the worker thread
    to have returned.
\<close>

datatype 'v event =
    Result_op "'v op"
  | Put tid nat "'v list" "(hid \<times> hid \<times> addr) option"
  | Exit tid
  | Sem_post tid
  | Loop_test
  | Sem_wait
  | Sem_wait_interrupted
  | Pop
  | Exec "tid option"
  | Destructor tid
  | Join

fun step :: "(nat \<Rightarrow> 'v list \<Rightarrow> 'st \<Rightarrow> 'st \<times> 'v) \<Rightarrow> 'v::zero event \<Rightarrow>
    ('st, 'v) actor \<Rightarrow> ('st, 'v) actor option" where
  "step body (Result_op e) s =
     (if list_all (\<lambda>h. h \<notin> set (owned s)) (op_handles e)
      then do {
        fs \<leftarrow> result_step e (futures s);
        Some (s\<lparr>futures := fs\<rparr>)
      }
      else None)"
| "step body (Put t f args None) s =
     (if put_template Void (length args) = Inr () \<and> can_call s t
      then Some (push_back t (Object_message (Method f) args None) s)
      else None)"
| "step body (Put t f args (Some (h, hm, a))) s =
     (if put_template Non_void (length args) = Inr () \<and> can_call s t
      then do {
        fs1 \<leftarrow> result_step (New h a 0) (futures s);
        fs2 \<leftarrow> result_step (Copy hm h) fs1;
        Some (push_back t (Object_message (Method f) args (Some hm)) (s\<lparr>futures := fs2\<rparr>))
      }
      else None)"
| "step body (Exit t) s =
     (if put_template Void 0 = Inr () \<and> can_call s t
      then Some (push_back t (Object_message Actor_exit [] None) s)
      else None)"
| "step body (Sem_post t) s =
     (if t \<in> set (posting s) \<and> \<not> joined s then Some (sem_post t s) else None)"
| "step body Loop_test s =
     (case m_thread s of
        At_loop_test \<Rightarrow>
          Some (s\<lparr>m_thread := (if m_loop s then At_sem_wait else Thread_returned)\<rparr>)
      | _ \<Rightarrow> None)"
| "step body Sem_wait s =
     (case m_thread s of
        At_sem_wait \<Rightarrow>
          if 0 < m_sem s then Some (s\<lparr>m_sem := m_sem s - 1, m_thread := At_pop\<rparr>) else None
      | _ \<Rightarrow> None)"
| "step body Sem_wait_interrupted s =
     (case m_thread s of
        At_sem_wait \<Rightarrow> Some (s\<lparr>m_thread := At_pop\<rparr>)
      | _ \<Rightarrow> None)"
| "step body Pop s =
     (case m_thread s of
        At_pop \<Rightarrow>
          (case m_messages s of
             [] \<Rightarrow> Some (s\<lparr>m_thread := Assert_failed\<rparr>)
           | msg # rest \<Rightarrow> Some (s\<lparr>m_messages := rest, m_thread := At_exec msg\<rparr>))
      | _ \<Rightarrow> None)"
| "step body (Exec w) s =
     (case m_thread s of
        At_exec msg \<Rightarrow>
          do {
            s1 \<leftarrow> exec body w msg s;
            s2 \<leftarrow> delete_message msg s1;
            Some (s2\<lparr>m_thread := At_loop_test, executed := executed s @ [msg]\<rparr>)
          }
      | _ \<Rightarrow> None)"
| "step body (Destructor t) s =
     (if destructor s = None \<and> put_template Void 0 = Inr () \<and> can_call s t
      then Some (push_back t (Object_message Actor_exit [] None) (s\<lparr>destructor := Some t\<rparr>))
      else None)"
| "step body Join s =
     (case destructor s of
        None \<Rightarrow> None
      | Some t \<Rightarrow>
          if t \<notin> set (posting s) \<and> m_thread s = Thread_returned \<and> \<not> joined s
          then Some (s\<lparr>joined := True\<rparr>)
          else None)"

text \<open>A sequence of steps, stopping at the first that cannot happen.\<close>

fun run :: "(nat \<Rightarrow> 'v list \<Rightarrow> 'st \<Rightarrow> 'st \<times> 'v) \<Rightarrow> 'v::zero event list \<Rightarrow>
    ('st, 'v) actor \<Rightarrow> ('st, 'v) actor option" where
  "run body [] s = Some s"
| "run body (e # es) s = (case step body e s of None \<Rightarrow> None | Some s' \<Rightarrow> run body es s')"


subsection \<open>Invariants of the mailbox\<close>

text \<open>
  \<open>fifo\<close>: the history of executed messages, then the message being executed, then
  the list, is the history of enqueued messages. \<open>stopping\<close>: the loop flag is clear
  exactly when the exit message has been executed, which is then the last message
  executed. \<open>counting\<close>: the semaphore counts the messages of the list, less those whose
  \<^verbatim>\<open>sem_post\<close> is still to come and the one the worker has been granted; this one is
  kept by every step but an interrupted \<^verbatim>\<open>sem_wait\<close>.
\<close>

definition is_exit :: "'v message \<Rightarrow> bool" where
  "is_exit msg \<longleftrightarrow> m_function msg = Actor_exit"

definition fifo :: "('st, 'v) actor \<Rightarrow> bool" where
  "fifo s \<longleftrightarrow> executed s @ in_flight s @ m_messages s = enqueued s"

definition counting :: "('st, 'v) actor \<Rightarrow> bool" where
  "counting s \<longleftrightarrow>
     m_sem s + length (posting s) + (if m_thread s = At_pop then 1 else 0) = length (m_messages s) \<and>
     m_thread s \<noteq> Assert_failed"

definition stopping :: "('st, 'v) actor \<Rightarrow> bool" where
  "stopping s \<longleftrightarrow>
     (m_loop s \<longleftrightarrow> \<not> list_ex is_exit (executed s)) \<and>
     \<not> list_ex is_exit (butlast (executed s)) \<and>
     (\<not> m_loop s \<longrightarrow> m_thread s = At_loop_test \<or> m_thread s = Thread_returned) \<and>
     (m_thread s = Thread_returned \<longrightarrow> \<not> m_loop s) \<and>
     (joined s \<longrightarrow> m_thread s = Thread_returned)"

text \<open>\<open>owning\<close>: the handles held by messages are distinct live handles.\<close>

definition owning :: "('st, 'v) actor \<Rightarrow> bool" where
  "owning s \<longleftrightarrow> distinct (owned s) \<and> (\<forall>h\<in>set (owned s). m_data (futures s) h \<noteq> None)"

text \<open>Two states that agree on every field of the actor but the results and the derived object.\<close>

definition same_mailbox :: "('st, 'v) actor \<Rightarrow> ('st, 'v) actor \<Rightarrow> bool" where
  "same_mailbox s s' \<longleftrightarrow>
     m_loop s' = m_loop s \<and> m_messages s' = m_messages s \<and> m_sem s' = m_sem s \<and>
     m_thread s' = m_thread s \<and> posting s' = posting s \<and> destructor s' = destructor s \<and>
     joined s' = joined s \<and> enqueued s' = enqueued s \<and> executed s' = executed s"

subsection \<open>Concrete runs\<close>

text \<open>
  A derived class whose member functions count their calls in the derived object and
  return 42, for the concrete runs below. Threads, handles and addresses are numbers.
\<close>

definition unit_body :: "nat \<Rightarrow> int list \<Rightarrow> nat \<Rightarrow> nat \<times> int" where
  "unit_body f args st = (Suc st, 42)"

text \<open>
  Handles made, copied, assigned and destroyed by callers, and a call with a result
  enqueued.
\<close>

definition handles_run :: "int event list" where
  "handles_run =
     [Result_op (New 1 100 7), Result_op (Copy 2 1), Result_op (New 3 200 9),
      Result_op (Assign 3 1), Result_op (Destroy 2), Put 5 0 [] (Some (4, 6, 300))]"

text \<open>Two calls enqueued by two threads; the worker executes the first.\<close>

definition fifo_run :: "int event list" where
  "fifo_run =
     [Put 1 0 [] None, Sem_post 1, Put 2 1 [5] None, Sem_post 2,
      Loop_test, Sem_wait, Pop, Exec None]"

text \<open>
  A thread calls \<^verbatim>\<open>exit()\<close> and then enqueues a call; the worker runs until it returns.
\<close>

definition exit_then_put :: "int event list" where
  "exit_then_put =
     [Exit 1, Sem_post 1, Put 1 0 [] None, Sem_post 1,
      Loop_test, Sem_wait, Pop, Exec None, Loop_test]"

text \<open>
  What happens before the destructor is entered (one call enqueued; or \<^verbatim>\<open>exit()\<close> and
  then one call), and what happens after the destructor has enqueued its exit message
  (its \<^verbatim>\<open>sem_post\<close>, the worker's iterations, the join).
\<close>

definition before_destruction :: "int event list" where
  "before_destruction = [Put 1 0 [] None, Sem_post 1]"

definition early_exit :: "int event list" where
  "early_exit = [Exit 1, Sem_post 1, Put 1 0 [] None, Sem_post 1]"

definition destruction :: "int event list" where
  "destruction =
     [Sem_post 2, Loop_test, Sem_wait, Pop, Exec None, Loop_test, Sem_wait, Pop, Exec None,
      Loop_test, Join]"

definition short_destruction :: "int event list" where
  "short_destruction = [Sem_post 2, Loop_test, Sem_wait, Pop, Exec None, Loop_test, Join]"

text \<open>A result with two handles, set to 42 through the first.\<close>

definition set_then_get :: "int op list" where
  "set_then_get = [New 1 100 0, Copy 2 1, Set 1 42 None]"

text \<open>
  A call with a result: the caller's handle is 10, the message's is 11, the storage is
  at 100. The worker has taken the message and is about to execute it.
\<close>

definition call_returning_42 :: "int event list" where
  "call_returning_42 = [Put 1 0 [] (Some (10, 11, 100)), Sem_post 1, Loop_test, Sem_wait, Pop]"

text \<open>
  The same call; the caller copies its handle (12) and threads 1 and 2 call \<^verbatim>\<open>get()\<close>
  on the two handles before the worker executes the message.
\<close>

definition two_waiters :: "int event list" where
  "two_waiters =
     [Put 1 0 [] (Some (10, 11, 100)), Sem_post 1, Result_op (Copy 12 10),
      Result_op (Get 1 10), Result_op (Get 2 12), Loop_test, Sem_wait, Pop]"

text \<open>
  The same call; the caller calls \<^verbatim>\<open>get()\<close> at once and its wait returns spuriously.
\<close>

definition spurious_wakeup :: "int event list" where
  "spurious_wakeup =
     [Put 1 0 [] (Some (10, 11, 100)), Sem_post 1, Result_op (Get 1 10),
      Result_op (Spurious 1), Result_op (Wakeup 1)]"

text \<open>
  A result with two handles; thread 5 calls \<^verbatim>\<open>get()\<close> on the second before the value
  is set, and is suspended.
\<close>

definition waiting_get :: "int op list" where
  "waiting_get = [New 1 100 0, Copy 2 1, Get 5 2]"

text \<open>
  The call \<^verbatim>\<open>put(f).get()\<close>: the caller calls \<^verbatim>\<open>get()\<close> on the result of \<^verbatim>\<open>put\<close> at once
  and is suspended; then the worker takes the message and is about to execute it.
\<close>

definition waiting_call :: "int event list" where
  "waiting_call =
     [Put 1 0 [] (Some (10, 11, 100)), Sem_post 1, Result_op (Get 1 10),
      Loop_test, Sem_wait, Pop]"

text \<open>
  Two calls enqueued by two threads; the \<^verbatim>\<open>sem_wait\<close> of the worker's first iteration is
  interrupted, and the worker is about to take a message.
\<close>

definition fifo_interrupted :: "int event list" where
  "fifo_interrupted =
     [Put 1 0 [] None, Sem_post 1, Put 2 1 [5] None, Sem_post 2,
      Loop_test, Sem_wait_interrupted]"

text \<open>
  Nothing is enqueued; the worker enters the loop, its \<^verbatim>\<open>sem_wait\<close> is interrupted by a
  signal handler of the program, and it goes on to the assertion.
\<close>

definition interrupted_wait :: "int event list" where
  "interrupted_wait = [Loop_test, Sem_wait_interrupted, Pop]"

text \<open>
  A thread is inside \<^verbatim>\<open>put\<close>, between \<^verbatim>\<open>push_back\<close> and \<^verbatim>\<open>sem_post\<close>, when the worker's
  \<^verbatim>\<open>sem_wait\<close> is interrupted; the worker takes the message and executes it, and then the
  thread posts the semaphore.
\<close>

definition interrupted_then_posted :: "int event list" where
  "interrupted_then_posted =
     [Put 1 0 [] None, Loop_test, Sem_wait_interrupted, Pop, Exec None, Sem_post 1]"

text \<open>The equations that evaluate the model.\<close>

lemmas model_defs =
  results_init_def m_data_def max_handles_def heap_inc_ref_def heap_dec_ref_def inc_ref_def
  dec_ref_def data_init_def get_data_def set_data_def pthread_cond_signal_def wake_def
  get_wakeup_def actor_init_def in_flight_def owned_def can_call_def push_back_def sem_post_def
  exit_actor_def exec_def delete_message_def put_template_def put_overloads_def
  object_messages_def List.map_filter_def unit_body_def

section \<open>Reference counting\<close>

lemma aliases_le: "aliases a hs \<le> length hs"
  by (simp add: aliases_def)

lemma aliases_Cons: "aliases a ((h, b) # hs) = (if b = a then Suc (aliases a hs) else aliases a hs)"
  by (simp add: aliases_def)

lemma aliases_remove:
  "distinct (map fst hs) \<Longrightarrow> map_of hs h = Some b \<Longrightarrow>
   aliases a (filter (\<lambda>p. fst p \<noteq> h) hs) = (if b = a then aliases a hs - 1 else aliases a hs)"
proof (induction hs)
  case Nil
  then show ?case by simp
next
  case (Cons p hs)
  obtain k x where p: "p = (k, x)" by (cases p)
  show ?case
  proof (cases "k = h")
    case True
    with Cons.prems p have "x = b" and "h \<notin> fst ` set hs" by auto
    then have "filter (\<lambda>p. fst p \<noteq> h) hs = hs"
      by (auto simp: filter_id_conv)
    with True p \<open>x = b\<close> show ?thesis by (simp add: aliases_def)
  next
    case False
    from False Cons.prems p have "(h, b) \<in> set hs"
      by (auto dest: map_of_SomeD split: if_splits)
    then have pos: "0 < aliases b hs"
      by (force simp: aliases_def filter_empty_conv)
    from False Cons p have "aliases a (filter (\<lambda>p. fst p \<noteq> h) hs) = (if b = a then aliases a hs - 1 else aliases a hs)"
      by simp
    with pos show ?thesis using False p
      by (auto simp: aliases_def)
  qed
qed

lemma aliases_assign:
  "distinct (map fst hs) \<Longrightarrow> map_of hs h = Some b \<Longrightarrow>
   aliases a (map (\<lambda>p. if fst p = h then (h, c) else p) hs) =
     (if b = a then aliases a hs - 1 else aliases a hs) + (if c = a then 1 else 0)"
proof (induction hs)
  case Nil
  then show ?case by simp
next
  case (Cons p hs)
  obtain k x where p: "p = (k, x)" by (cases p)
  show ?case
  proof (cases "k = h")
    case True
    with Cons.prems p have "x = b" and "h \<notin> fst ` set hs" by auto
    then have "map (\<lambda>p. if fst p = h then (h, c) else p) hs = hs"
      by (intro map_idI) auto
    with True p \<open>x = b\<close> show ?thesis by (simp add: aliases_def)
  next
    case False
    from False Cons.prems p have "(h, b) \<in> set hs"
      by (auto dest: map_of_SomeD split: if_splits)
    then have pos: "0 < aliases b hs"
      by (force simp: aliases_def filter_empty_conv)
    from False Cons p have "aliases a (map (\<lambda>p. if fst p = h then (h, c) else p) hs) =
        (if b = a then aliases a hs - 1 else aliases a hs) + (if c = a then 1 else 0)"
      by simp
    with pos show ?thesis using False p
      by (auto simp: aliases_def)
  qed
qed

lemma aliases_pos: "map_of hs h = Some a \<Longrightarrow> 0 < aliases a hs"
  by (force simp: aliases_def filter_empty_conv dest: map_of_SomeD)

lemma unat_inc: "unat (c :: size_t) \<le> max_handles \<Longrightarrow> unat (c + 1) = Suc (unat c)"
  by (simp add: max_handles_def unat_word_ariths)

lemma unat_dec: "0 < unat (c :: size_t) \<Longrightarrow> unat (c - 1) = unat c - 1"
  by (metis unat_minus_one unat_0 less_numeral_extra(3))

lemma dec_zero: "(c :: size_t) - 1 = 0 \<longleftrightarrow> unat c = 1"
proof -
  have "c - 1 = 0 \<longleftrightarrow> c = 1" by simp
  also have "\<dots> \<longleftrightarrow> unat c = unat (1 :: size_t)" by (simp only: word_unat_eq_iff)
  finally show ?thesis by simp
qed

lemma counted_init: "counted results_init"
  by (simp add: counted_def tallied_def results_init_def aliases_def max_handles_def)

lemma counted_heapD:
  "counted s \<Longrightarrow> heap s a = Some d \<Longrightarrow> 0 < aliases a (handles s) \<and> unat (m_ref_count d) = aliases a (handles s)"
  unfolding counted_def tallied_def by (auto split: option.splits dest: spec [of _ a])

lemma counted_heapN:
  "counted s \<Longrightarrow> heap s a = None \<Longrightarrow> aliases a (handles s) = 0"
  unfolding counted_def tallied_def by (auto split: option.splits dest: spec [of _ a])

lemma counted_tallied: "counted s \<Longrightarrow> tallied (heap s) (handles s) a"
  by (simp add: counted_def)

lemma counted_alive:
  assumes "counted s" "m_data s h = Some a"
  shows "\<exists>d. heap s a = Some d"
proof (cases "heap s a")
  case None
  with assms have "aliases a (handles s) = 0" by (simp add: counted_heapN)
  moreover from assms have "0 < aliases a (handles s)" by (simp add: m_data_def aliases_pos)
  ultimately show ?thesis by simp
qed simp

lemma tallied_other:
  "tallied hp hs b \<Longrightarrow> hp' b = hp b \<Longrightarrow> aliases b hs' = aliases b hs \<Longrightarrow> tallied hp' hs' b"
  by (simp add: tallied_def split: option.splits)

lemma fresh_handle: "m_data s h = None \<Longrightarrow> h \<notin> fst ` set (handles s)"
  by (simp add: m_data_def map_of_eq_None_iff)

lemma counted_New:
  assumes "counted s" "result_step (New h a v) s = Some s'"
  shows "counted s'"
proof -
  from assms(2) have g: "m_data s h = None" "heap s a = None" "length (handles s) < max_handles"
    and s': "s' = s\<lparr>heap := (heap s)(a := Some (data_init v)), handles := (h, a) # handles s\<rparr>"
    by (auto split: if_splits)
  from assms(1) g(2) have z: "aliases a (handles s) = 0" by (rule counted_heapN)
  have "tallied (heap s') (handles s') b" for b
  proof (cases "b = a")
    case True
    with z show ?thesis by (simp add: s' tallied_def aliases_Cons data_init_def)
  next
    case False
    have "tallied (heap s') (handles s') b"
      by (rule tallied_other [OF counted_tallied [OF assms(1), of b]])
        (use False in \<open>simp_all add: s' aliases_Cons\<close>)
    then show ?thesis .
  qed
  with assms(1) g(3) fresh_handle [OF g(1)] show ?thesis
    by (simp add: counted_def s')
qed

lemma counted_Copy:
  assumes "counted s" "result_step (Copy h r) s = Some s'"
  shows "counted s'"
proof -
  from assms(2) obtain a d where g: "m_data s h = None" "length (handles s) < max_handles"
    "m_data s r = Some a" "heap s a = Some d"
    and s': "s' = s\<lparr>heap := (heap s)(a := Some (inc_ref d)), handles := (h, a) # handles s\<rparr>"
    by (auto simp: heap_inc_ref_def split: if_splits bind_splits option.splits)
  from assms(1) g(4) have c: "unat (m_ref_count d) = aliases a (handles s)"
    by (simp add: counted_heapD)
  have "aliases a (handles s) \<le> length (handles s)" by (rule aliases_le)
  with c g(2) have u: "unat (m_ref_count d + 1) = Suc (aliases a (handles s))"
    by (simp add: unat_inc)
  have "tallied (heap s') (handles s') b" for b
  proof (cases "b = a")
    case True
    with u show ?thesis by (simp add: s' tallied_def aliases_Cons inc_ref_def)
  next
    case False
    have "tallied (heap s') (handles s') b"
      by (rule tallied_other [OF counted_tallied [OF assms(1), of b]])
        (use False in \<open>simp_all add: s' aliases_Cons\<close>)
    then show ?thesis .
  qed
  with assms(1) g(2) fresh_handle [OF g(1)] show ?thesis
    by (simp add: counted_def s')
qed

lemma heap_dec_ref_counted:
  assumes "heap_dec_ref a hp = Some hp'"
    and "hp a = Some d" and "unat (m_ref_count d) = Suc n"
  shows "hp' = hp(a := if n = 0 then None else Some (d\<lparr>m_ref_count := m_ref_count d - 1\<rparr>))"
    and "unat (m_ref_count d - 1) = n"
proof -
  from assms(3) show u: "unat (m_ref_count d - 1) = n"
    by (simp add: unat_dec)
  from assms(3) have "m_ref_count d - 1 = 0 \<longleftrightarrow> n = 0"
    by (simp only: dec_zero) simp
  with assms(1,2) show "hp' = hp(a := if n = 0 then None else Some (d\<lparr>m_ref_count := m_ref_count d - 1\<rparr>))"
    by (auto simp: heap_dec_ref_def dec_ref_def Let_def)
qed

lemma tallied_dec:
  assumes "tallied hp hs a" "hp a = Some d" "heap_dec_ref a hp = Some hp'"
    and "aliases a hs' = aliases a hs - 1"
  shows "tallied hp' hs' a"
proof -
  from assms(1,2) obtain n where n: "aliases a hs = Suc n" "unat (m_ref_count d) = Suc n"
    by (cases "aliases a hs") (auto simp: tallied_def)
  from heap_dec_ref_counted [OF assms(3,2) n(2)] n(1) assms(4) show ?thesis
    by (simp add: tallied_def)
qed

lemma heap_dec_ref_other: "heap_dec_ref a hp = Some hp' \<Longrightarrow> b \<noteq> a \<Longrightarrow> hp' b = hp b"
  by (auto simp: heap_dec_ref_def split: option.splits)

lemma heap_inc_ref_other: "heap_inc_ref a hp = Some hp' \<Longrightarrow> b \<noteq> a \<Longrightarrow> hp' b = hp b"
  by (auto simp: heap_inc_ref_def split: option.splits)

lemma counted_Destroy:
  assumes "counted s" "result_step (Destroy h) s = Some s'"
  shows "counted s'"
proof -
  from assms(2) obtain a d hp where g: "m_data s h = Some a" "heap s a = Some d"
    "heap_dec_ref a (heap s) = Some hp"
    and s': "s' = s\<lparr>heap := hp, handles := filter (\<lambda>p. fst p \<noteq> h) (handles s)\<rparr>"
    by (auto simp: heap_dec_ref_def split: bind_splits option.splits)
  from assms(1) have dist: "distinct (map fst (handles s))" by (simp add: counted_def)
  from g(1) have mo: "map_of (handles s) h = Some a" by (simp add: m_data_def)
  have len: "length (filter (\<lambda>p. fst p \<noteq> h) (handles s)) \<le> length (handles s)" by simp
  have al: "aliases b (filter (\<lambda>p. fst p \<noteq> h) (handles s)) =
      (if a = b then aliases b (handles s) - 1 else aliases b (handles s))" for b
    by (rule aliases_remove [OF dist mo])
  have "tallied (heap s') (handles s') b" for b
  proof (cases "b = a")
    case True
    have "tallied hp (filter (\<lambda>p. fst p \<noteq> h) (handles s)) a"
      by (rule tallied_dec [OF counted_tallied [OF assms(1)] g(2) g(3)]) (simp add: al)
    with True show ?thesis by (simp add: s')
  next
    case False
    have "tallied hp (filter (\<lambda>p. fst p \<noteq> h) (handles s)) b"
      by (rule tallied_other [OF counted_tallied [OF assms(1), of b]])
        (use False in \<open>simp_all add: al heap_dec_ref_other [OF g(3)]\<close>)
    then show ?thesis by (simp add: s')
  qed
  moreover from assms(1) have "length (handles s) \<le> max_handles"
    by (simp add: counted_def)
  then have "length (handles s') \<le> max_handles"
    unfolding s' by (simp add: le_trans [OF length_filter_le])
  moreover from dist have "distinct (map fst (handles s'))"
    by (simp add: s' distinct_map_filter)
  ultimately show ?thesis by (simp add: counted_def)
qed

lemma counted_Assign:
  assumes "counted s" "result_step (Assign h r) s = Some s'"
  shows "counted s'"
proof -
  from assms(2) obtain ar ah hp1 hp2 where g: "m_data s r = Some ar" "m_data s h = Some ah"
    "heap_inc_ref ar (heap s) = Some hp1" "heap_dec_ref ah hp1 = Some hp2"
    and s': "s' = s\<lparr>heap := hp2, handles := map (\<lambda>p. if fst p = h then (h, ar) else p) (handles s)\<rparr>"
    by (auto split: bind_splits)
  let ?hs' = "map (\<lambda>p. if fst p = h then (h, ar) else p) (handles s)"
  from g(3) obtain dr where dr: "heap s ar = Some dr" and hp1: "hp1 = (heap s)(ar := Some (inc_ref dr))"
    by (auto simp: heap_inc_ref_def split: option.splits)
  from assms(1) have dist: "distinct (map fst (handles s))" by (simp add: counted_def)
  from assms(1) have len: "length (handles s) \<le> max_handles" by (simp add: counted_def)
  from g(2) have mo: "map_of (handles s) h = Some ah" by (simp add: m_data_def)
  have al: "aliases b (map (\<lambda>p. if fst p = h then (h, ar) else p) (handles s)) =
      (if ah = b then aliases b (handles s) - 1 else aliases b (handles s)) + (if ar = b then 1 else 0)" for b
    by (rule aliases_assign [OF dist mo])
  from assms(1) dr have cr: "0 < aliases ar (handles s)" "unat (m_ref_count dr) = aliases ar (handles s)"
    by (simp_all add: counted_heapD)
  have "aliases ar (handles s) \<le> length (handles s)" by (rule aliases_le)
  with cr len have u: "unat (m_ref_count dr + 1) = Suc (aliases ar (handles s))"
    by (simp add: unat_inc)
  have "tallied (heap s') (handles s') b" for b
  proof -
    consider (same) "ar = ah" "b = ar" | (src) "ar \<noteq> ah" "b = ar" | (tgt) "ar \<noteq> ah" "b = ah"
      | (other) "b \<noteq> ar" "b \<noteq> ah" by blast
    then have "tallied hp2 ?hs' b"
    proof cases
      case same
      have "tallied hp1 ((h, ar) # handles s) ar"
        using u cr by (simp add: tallied_def hp1 inc_ref_def aliases_Cons)
      moreover have "hp1 ar = Some (inc_ref dr)" by (simp add: hp1)
      moreover have "aliases ar ?hs' = aliases ar ((h, ar) # handles s) - 1"
        by (subst al) (use same cr in \<open>simp add: aliases_Cons\<close>)
      ultimately have "tallied hp2 ?hs' ar"
        using g(4) same(1) by (rule_tac tallied_dec [where hp = hp1 and hs = "(h, ar) # handles s"]) simp_all
      with same show ?thesis by simp
    next
      case src
      then have "hp2 ar = hp1 ar" using heap_dec_ref_other [OF g(4), of ar] by simp
      moreover have "hp1 ar = Some (inc_ref dr)" by (simp add: hp1)
      moreover have "aliases ar ?hs' = Suc (aliases ar (handles s))"
        by (subst al) (use src in simp)
      moreover have "unat (m_ref_count (inc_ref dr)) = Suc (aliases ar (handles s))"
        using u by (simp add: inc_ref_def)
      ultimately have "tallied hp2 ?hs' ar"
        by (simp add: tallied_def)
      with src show ?thesis by simp
    next
      case tgt
      from g(4) obtain dh where dh: "hp1 ah = Some dh"
        by (auto simp: heap_dec_ref_def split: option.splits)
      have "tallied hp1 (handles s) ah"
        by (rule tallied_other [OF counted_tallied [OF assms(1), of ah]]) (use tgt in \<open>simp_all add: hp1\<close>)
      then have "tallied hp2 ?hs' ah"
        by (rule tallied_dec [OF _ dh g(4)]) (use tgt in \<open>simp add: al\<close>)
      with tgt show ?thesis by simp
    next
      case other
      show ?thesis
        by (rule tallied_other [OF counted_tallied [OF assms(1), of b]])
          (use other in \<open>simp_all add: al hp1 heap_dec_ref_other [OF g(4)]\<close>)
    qed
    then show ?thesis by (simp add: s')
  qed
  moreover have "distinct (map fst (handles s'))"
  proof -
    have "map fst ?hs' = map fst (handles s)"
      unfolding map_map by (rule map_cong) auto
    moreover have "handles s' = ?hs'" by (simp add: s')
    ultimately show ?thesis using dist by (simp only:)
  qed
  moreover have "length (handles s') \<le> max_handles"
    using len by (simp add: s')
  ultimately show ?thesis by (simp add: counted_def)
qed

lemma counted_cong:
  assumes "counted s" "handles s' = handles s"
    and "\<And>b. map_option m_ref_count (heap s' b) = map_option m_ref_count (heap s b)"
  shows "counted s'"
proof -
  have "tallied (heap s') (handles s') b" for b
    using counted_tallied [OF assms(1), of b] assms(2) assms(3) [of b]
    by (auto simp: tallied_def split: option.splits)
  with assms(1,2) show ?thesis by (simp add: counted_def)
qed

lemma counted_step:
  assumes "counted s" "result_step e s = Some s'"
  shows "counted s'"
proof (cases e)
  case (New h a v)
  with assms show ?thesis by (auto intro: counted_New)
next
  case (Copy h r)
  with assms show ?thesis by (auto intro: counted_Copy)
next
  case (Destroy h)
  with assms show ?thesis by (auto intro: counted_Destroy)
next
  case (Assign h r)
  with assms show ?thesis by (auto intro: counted_Assign)
next
  case (Get t h)
  with assms(2) have "handles s' = handles s"
    and "\<And>b. map_option m_ref_count (heap s' b) = map_option m_ref_count (heap s b)"
    by (auto simp: get_data_def split: if_splits bind_splits sum.splits)
  with assms(1) show ?thesis by (rule counted_cong)
next
  case (Wakeup t)
  with assms show ?thesis
    by (auto simp: counted_def split: thread.splits bind_splits)
next
  case (Set h v w)
  with assms(2) have "handles s' = handles s"
    and "\<And>b. map_option m_ref_count (heap s' b) = map_option m_ref_count (heap s b)"
    by (auto simp: set_data_def split: if_splits bind_splits sum.splits)
  with assms(1) show ?thesis by (rule counted_cong)
next
  case (Spurious t)
  with assms(2) have "handles s' = handles s"
    and "\<And>b. map_option m_ref_count (heap s' b) = map_option m_ref_count (heap s b)"
    by (auto split: if_splits bind_splits thread.splits)
  with assms(1) show ?thesis by (rule counted_cong)
qed

section \<open>The mailbox invariants hold in every reachable state\<close>

lemma step_Result_op:
  "step body (Result_op e) s = Some s' \<Longrightarrow> same_mailbox s s'"
  by (auto simp: same_mailbox_def split: if_splits bind_splits)

lemma step_Put:
  assumes "step body (Put t f args r) s = Some s'"
  shows "\<exists>s0. same_mailbox s s0 \<and>
     s' = push_back t (Object_message (Method f) args (map_option (fst \<circ> snd) r)) s0"
proof (cases r)
  case None
  with assms have "s' = push_back t (Object_message (Method f) args None) s"
    by (auto split: if_splits)
  with None show ?thesis by (auto simp: same_mailbox_def)
next
  case (Some p)
  obtain h hm a where "p = (h, hm, a)" by (cases p)
  with assms Some obtain fs where
    "s' = push_back t (Object_message (Method f) args (Some hm)) (s\<lparr>futures := fs\<rparr>)"
    by (auto split: if_splits bind_splits)
  with Some \<open>p = (h, hm, a)\<close> show ?thesis
    by (intro exI [of _ "s\<lparr>futures := fs\<rparr>"]) (simp add: same_mailbox_def)
qed

lemma step_Exit:
  "step body (Exit t) s = Some s' \<Longrightarrow> s' = push_back t (Object_message Actor_exit [] None) s"
  by (auto split: if_splits)

lemma step_Destructor:
  "step body (Destructor t) s = Some s' \<Longrightarrow>
     s' = push_back t (Object_message Actor_exit [] None) (s\<lparr>destructor := Some t\<rparr>)"
  by (auto split: if_splits)

lemma exec_mailbox:
  "exec body w msg s = Some s' \<Longrightarrow>
     m_loop s' = (m_loop s \<and> \<not> is_exit msg) \<and> m_messages s' = m_messages s \<and> m_sem s' = m_sem s \<and>
     m_thread s' = m_thread s \<and> posting s' = posting s \<and> destructor s' = destructor s \<and>
     joined s' = joined s \<and> enqueued s' = enqueued s \<and> executed s' = executed s"
  by (cases "m_function msg"; cases "m_result msg")
    (auto simp: exec_def exit_actor_def is_exit_def split: bind_splits prod.splits)

lemma delete_message_mailbox:
  "delete_message msg s = Some s' \<Longrightarrow> same_mailbox s s'"
  by (cases "m_result msg") (auto simp: delete_message_def same_mailbox_def split: bind_splits)

lemma step_Exec:
  assumes "step body (Exec w) s = Some s'"
  shows "\<exists>msg. m_thread s = At_exec msg \<and>
     m_loop s' = (m_loop s \<and> \<not> is_exit msg) \<and> m_messages s' = m_messages s \<and> m_sem s' = m_sem s \<and>
     m_thread s' = At_loop_test \<and> posting s' = posting s \<and> destructor s' = destructor s \<and>
     joined s' = joined s \<and> enqueued s' = enqueued s \<and> executed s' = executed s @ [msg]"
proof -
  from assms obtain msg s1 s2 where m: "m_thread s = At_exec msg"
    and e: "exec body w msg s = Some s1" and d: "delete_message msg s1 = Some s2"
    and s': "s' = s2\<lparr>m_thread := At_loop_test, executed := executed s @ [msg]\<rparr>"
    by (auto split: worker.splits bind_splits)
  from exec_mailbox [OF e] delete_message_mailbox [OF d] m show ?thesis
    by (simp add: s' same_mailbox_def)
qed

lemma push_back_mailbox:
  "same_mailbox s s0 \<Longrightarrow> s' = push_back t msg s0 \<Longrightarrow>
     m_loop s' = m_loop s \<and> m_messages s' = m_messages s @ [msg] \<and> m_sem s' = m_sem s \<and>
     m_thread s' = m_thread s \<and> posting s' = t # posting s \<and> destructor s' = destructor s \<and>
     joined s' = joined s \<and> enqueued s' = enqueued s @ [msg] \<and> executed s' = executed s"
  by (simp add: same_mailbox_def push_back_def)

lemma fifo_step:
  assumes "fifo s" "step body e s = Some s'"
  shows "fifo s'"
proof (cases e)
  case (Result_op x)
  with assms step_Result_op [of body x s s'] show ?thesis
    by (simp add: fifo_def same_mailbox_def in_flight_def)
next
  case (Put t f args r)
  with assms(2) obtain s0 msg where "same_mailbox s s0" "s' = push_back t msg s0"
    using step_Put by blast
  from push_back_mailbox [OF this] assms(1) show ?thesis
    by (simp add: fifo_def in_flight_def)
next
  case (Exit t)
  with assms(2) have "s' = push_back t (Object_message Actor_exit [] None) s"
    by (simp add: step_Exit)
  with assms(1) show ?thesis by (simp add: fifo_def in_flight_def push_back_def)
next
  case (Sem_post t)
  with assms show ?thesis
    by (auto simp: fifo_def in_flight_def sem_post_def split: if_splits)
next
  case Loop_test
  with assms show ?thesis
    by (cases "m_loop s") (auto simp: fifo_def in_flight_def split: worker.splits)
next
  case Sem_wait
  with assms show ?thesis
    by (auto simp: fifo_def in_flight_def split: worker.splits if_splits)
next
  case Sem_wait_interrupted
  with assms show ?thesis
    by (auto simp: fifo_def in_flight_def split: worker.splits)
next
  case Pop
  with assms show ?thesis
    by (auto simp: fifo_def in_flight_def split: worker.splits list.splits)
next
  case (Exec w)
  with assms(2) step_Exec [of body w s s'] assms(1) show ?thesis
    by (auto simp: fifo_def in_flight_def)
next
  case (Destructor t)
  with assms(2) have "s' = push_back t (Object_message Actor_exit [] None) (s\<lparr>destructor := Some t\<rparr>)"
    by (simp add: step_Destructor)
  with assms(1) show ?thesis by (simp add: fifo_def in_flight_def push_back_def)
next
  case Join
  with assms show ?thesis
    by (auto simp: fifo_def in_flight_def split: option.splits if_splits)
qed

lemma counting_step:
  assumes "counting s" "step body e s = Some s'" "e \<noteq> Sem_wait_interrupted"
  shows "counting s'"
proof (cases e)
  case (Result_op x)
  with assms step_Result_op [of body x s s'] show ?thesis
    by (simp add: counting_def same_mailbox_def)
next
  case (Put t f args r)
  with assms(2) obtain s0 msg where "same_mailbox s s0" "s' = push_back t msg s0"
    using step_Put by blast
  from push_back_mailbox [OF this] assms(1) show ?thesis
    by (simp add: counting_def)
next
  case (Exit t)
  with assms(2) have "s' = push_back t (Object_message Actor_exit [] None) s"
    by (simp add: step_Exit)
  with assms(1) show ?thesis by (simp add: counting_def push_back_def)
next
  case (Sem_post t)
  with assms(2) have t: "t \<in> set (posting s)" and s': "s' = sem_post t s"
    by (auto split: if_splits)
  from t have "0 < length (posting s)"
    by (rule length_pos_if_in_set)
  then obtain n where n: "length (posting s) = Suc n"
    by (cases "length (posting s)") auto
  with t have "length (remove1 t (posting s)) = n"
    by (simp add: length_remove1)
  with n assms(1) show ?thesis by (auto simp: counting_def s' sem_post_def)
next
  case Loop_test
  with assms show ?thesis
    by (cases "m_loop s") (auto simp: counting_def split: worker.splits)
next
  case Sem_wait
  with assms show ?thesis
    by (auto simp: counting_def split: worker.splits if_splits)
next
  case Sem_wait_interrupted
  with assms(3) show ?thesis by simp
next
  case Pop
  with assms show ?thesis
    by (auto simp: counting_def split: worker.splits list.splits)
next
  case (Exec w)
  with assms(2) step_Exec [of body w s s'] assms(1) show ?thesis
    by (auto simp: counting_def)
next
  case (Destructor t)
  with assms(2) have "s' = push_back t (Object_message Actor_exit [] None) (s\<lparr>destructor := Some t\<rparr>)"
    by (simp add: step_Destructor)
  with assms(1) show ?thesis by (simp add: counting_def push_back_def)
next
  case Join
  with assms show ?thesis
    by (auto simp: counting_def split: option.splits if_splits)
qed

lemma stopping_step:
  assumes "stopping s" "step body e s = Some s'"
  shows "stopping s'"
proof (cases e)
  case (Result_op x)
  with assms(2) have "same_mailbox s s'" by (simp only: step_Result_op)
  with assms(1) show ?thesis
    by (auto simp: stopping_def same_mailbox_def)
next
  case (Put t f args r)
  with assms(2) obtain s0 msg where "same_mailbox s s0" "s' = push_back t msg s0"
    using step_Put by blast
  from push_back_mailbox [OF this] assms(1) show ?thesis
    by (auto simp: stopping_def)
next
  case (Exit t)
  with assms(2) have "s' = push_back t (Object_message Actor_exit [] None) s"
    by (simp add: step_Exit)
  with assms(1) show ?thesis by (auto simp: stopping_def push_back_def)
next
  case (Sem_post t)
  with assms show ?thesis
    by (auto simp: stopping_def sem_post_def split: if_splits)
next
  case Loop_test
  with assms show ?thesis
    by (cases "m_loop s") (auto simp: stopping_def split: worker.splits)
next
  case Sem_wait
  with assms show ?thesis
    by (auto simp: stopping_def split: worker.splits if_splits)
next
  case Sem_wait_interrupted
  with assms show ?thesis
    by (auto simp: stopping_def split: worker.splits)
next
  case Pop
  with assms show ?thesis
    by (auto simp: stopping_def split: worker.splits list.splits)
next
  case (Exec w)
  with assms(2) step_Exec [of body w s s'] obtain msg where m: "m_thread s = At_exec msg"
    "m_loop s' = (m_loop s \<and> \<not> is_exit msg)" "m_thread s' = At_loop_test" "joined s' = joined s"
    "executed s' = executed s @ [msg]" by blast
  from assms(1) m(1) have "m_loop s" "\<not> joined s" by (auto simp: stopping_def)
  with assms(1) m show ?thesis by (auto simp: stopping_def)
next
  case (Destructor t)
  with assms(2) have "s' = push_back t (Object_message Actor_exit [] None) (s\<lparr>destructor := Some t\<rparr>)"
    by (simp add: step_Destructor)
  with assms(1) show ?thesis by (auto simp: stopping_def push_back_def)
next
  case Join
  with assms show ?thesis
    by (auto simp: stopping_def split: option.splits if_splits)
qed

lemma init_invariants: "fifo (actor_init st)" "stopping (actor_init st)"
  by (simp_all add: fifo_def stopping_def actor_init_def in_flight_def)

lemma run_invariants:
  "fifo s \<and> stopping s \<Longrightarrow> run body evs s = Some s' \<Longrightarrow> fifo s' \<and> stopping s'"
proof (induction evs arbitrary: s)
  case Nil
  then show ?case by simp
next
  case (Cons e evs)
  from Cons.prems(2) obtain s1 where 1: "step body e s = Some s1" and 2: "run body evs s1 = Some s'"
    by (auto split: option.splits)
  from Cons.prems(1) 1 have "fifo s1 \<and> stopping s1"
    by (auto intro: fifo_step stopping_step)
  then show ?case using 2 by (rule Cons.IH)
qed

lemma reachable_invariants:
  "run body evs (actor_init st) = Some s \<Longrightarrow> fifo s \<and> stopping s"
  by (rule run_invariants [of "actor_init st"]) (simp_all add: init_invariants)

text \<open>
  As long as no \<^verbatim>\<open>sem_wait\<close> is interrupted, the semaphore counts the messages, and the
  list is not empty when \<^verbatim>\<open>sem_wait\<close> has returned.
\<close>

lemma run_counting:
  "counting s \<Longrightarrow> Sem_wait_interrupted \<notin> set evs \<Longrightarrow> run body evs s = Some s' \<Longrightarrow>
     counting s'"
proof (induction evs arbitrary: s)
  case Nil
  then show ?case by simp
next
  case (Cons e evs)
  from Cons.prems(3) obtain s1 where 1: "step body e s = Some s1" and 2: "run body evs s1 = Some s'"
    by (auto split: option.splits)
  from Cons.prems(2) have "e \<noteq> Sem_wait_interrupted" "Sem_wait_interrupted \<notin> set evs"
    by auto
  with counting_step [OF Cons.prems(1) 1] 2 show ?case by (auto intro: Cons.IH)
qed

lemma init_counting: "counting (actor_init st)"
  by (simp add: counting_def actor_init_def)

lemma uninterrupted_counting:
  assumes "Sem_wait_interrupted \<notin> set evs" "run body evs (actor_init st) = Some s"
  shows "m_sem s \<le> length (m_messages s)" "m_thread s = At_pop \<longrightarrow> m_messages s \<noteq> []"
    "m_thread s \<noteq> Assert_failed"
proof -
  from run_counting [OF init_counting assms] show "m_sem s \<le> length (m_messages s)"
    "m_thread s = At_pop \<longrightarrow> m_messages s \<noteq> []" "m_thread s \<noteq> Assert_failed"
    by (auto simp: counting_def)
qed

section \<open>Reference counts in every reachable state\<close>

lemma exec_counted:
  assumes "counted (futures s)" "exec body w msg s = Some s'"
  shows "counted (futures s')"
proof (cases "m_function msg")
  case Actor_exit
  with assms show ?thesis by (auto simp: exec_def exit_actor_def)
next
  case (Method f)
  obtain st v where b: "body f (m_args msg) (derived s) = (st, v)" by (cases "body f (m_args msg) (derived s)")
  show ?thesis
  proof (cases "m_result msg")
    case None
    with Method b assms show ?thesis by (auto simp: exec_def)
  next
    case (Some h)
    with Method b assms(2) obtain fs where "result_step (Set h v w) (futures s) = Some fs"
      "futures s' = fs"
      by (auto simp: exec_def simp del: result_step.simps split: bind_splits)
    with counted_step [OF assms(1)] show ?thesis by blast
  qed
qed

lemma delete_message_counted:
  assumes "counted (futures s)" "delete_message msg s = Some s'"
  shows "counted (futures s')"
proof (cases "m_result msg")
  case None
  with assms show ?thesis by (simp add: delete_message_def)
next
  case (Some h)
  with assms(2) obtain fs where "result_step (Destroy h) (futures s) = Some fs" "futures s' = fs"
    by (auto simp: delete_message_def simp del: result_step.simps split: bind_splits)
  with counted_step [OF assms(1)] show ?thesis by blast
qed

lemma futures_step:
  assumes "counted (futures s)" "step body e s = Some s'"
  shows "counted (futures s')"
proof (cases e)
  case (Result_op x)
  with assms(2) obtain fs where "result_step x (futures s) = Some fs" "futures s' = fs"
    by (auto simp del: result_step.simps split: if_splits bind_splits)
  with counted_step [OF assms(1)] show ?thesis by blast
next
  case (Put t f args r)
  show ?thesis
  proof (cases r)
    case None
    with Put assms show ?thesis by (auto simp: push_back_def split: if_splits)
  next
    case (Some p)
    obtain h hm a where p: "p = (h, hm, a)" by (cases p)
    with Some Put assms(2) obtain fs1 fs2 where
      1: "result_step (New h a 0) (futures s) = Some fs1" and 2: "result_step (Copy hm h) fs1 = Some fs2"
      and 3: "futures s' = fs2"
      by (auto simp: push_back_def simp del: result_step.simps split: if_splits bind_splits)
    from counted_step [OF counted_step [OF assms(1) 1] 2] 3 show ?thesis by simp
  qed
next
  case (Exec w)
  with assms(2) obtain msg s1 s2 where e: "exec body w msg s = Some s1"
    and d: "delete_message msg s1 = Some s2" and f: "futures s' = futures s2"
    by (auto split: worker.splits bind_splits)
  from delete_message_counted [OF exec_counted [OF assms(1) e] d] f show ?thesis by simp
qed (use assms in \<open>auto simp: push_back_def sem_post_def split: if_splits worker.splits list.splits option.splits\<close>)

lemma futures_run:
  "counted (futures s) \<Longrightarrow> run body evs s = Some s' \<Longrightarrow> counted (futures s')"
proof (induction evs arbitrary: s)
  case Nil
  then show ?case by simp
next
  case (Cons e evs)
  from Cons.prems(2) obtain s1 where 1: "step body e s = Some s1" and 2: "run body evs s1 = Some s'"
    by (auto split: option.splits)
  from futures_step [OF Cons.prems(1) 1] 2 show ?case by (rule Cons.IH)
qed

lemma reachable_counted: "run body evs (actor_init st) = Some s \<Longrightarrow> counted (futures s)"
  by (rule futures_run [of "actor_init st"]) (simp_all add: actor_init_def counted_init)

section \<open>Histories, and the worker once it has returned\<close>

lemma step_enqueued:
  assumes "step body e s = Some s'"
  shows "enqueued s' = enqueued s \<or>
    (\<exists>msg. enqueued s' = enqueued s @ [msg] \<and> (is_exit msg \<longrightarrow> msg = Object_message Actor_exit [] None))"
proof (cases e)
  case (Result_op x)
  with assms have "same_mailbox s s'" by (simp only: step_Result_op)
  then show ?thesis by (simp add: same_mailbox_def)
next
  case (Put t f args r)
  with assms obtain s0 where "same_mailbox s s0"
    "s' = push_back t (Object_message (Method f) args (map_option (fst \<circ> snd) r)) s0"
    using step_Put by blast
  from push_back_mailbox [OF this] show ?thesis by (simp add: is_exit_def)
next
  case (Exit t)
  with assms have "s' = push_back t (Object_message Actor_exit [] None) s"
    by (simp add: step_Exit)
  then show ?thesis by (simp add: push_back_def)
next
  case (Sem_post t)
  with assms show ?thesis by (auto simp: sem_post_def split: if_splits)
next
  case Loop_test
  with assms show ?thesis by (auto split: worker.splits)
next
  case Sem_wait
  with assms show ?thesis by (auto split: worker.splits if_splits)
next
  case Sem_wait_interrupted
  with assms show ?thesis by (auto split: worker.splits)
next
  case Pop
  with assms show ?thesis by (auto split: worker.splits list.splits)
next
  case (Exec w)
  with assms step_Exec [of body w s s'] show ?thesis by auto
next
  case (Destructor t)
  with assms have "s' = push_back t (Object_message Actor_exit [] None) (s\<lparr>destructor := Some t\<rparr>)"
    by (simp add: step_Destructor)
  then show ?thesis by (simp add: push_back_def)
next
  case Join
  with assms show ?thesis by (auto split: option.splits if_splits)
qed

lemma run_enqueued:
  "run body evs s = Some s' \<Longrightarrow>
     \<exists>more. enqueued s' = enqueued s @ more \<and>
       (\<forall>m\<in>set more. is_exit m \<longrightarrow> m = Object_message Actor_exit [] None)"
proof (induction evs arbitrary: s)
  case Nil
  then show ?case by simp
next
  case (Cons e evs)
  from Cons.prems obtain s1 where 1: "step body e s = Some s1" and 2: "run body evs s1 = Some s'"
    by (auto split: option.splits)
  from Cons.IH [OF 2] obtain more where m: "enqueued s' = enqueued s1 @ more"
    "\<forall>m\<in>set more. is_exit m \<longrightarrow> m = Object_message Actor_exit [] None" by blast
  from step_enqueued [OF 1] show ?case
  proof
    assume "enqueued s1 = enqueued s"
    with m show ?thesis by auto
  next
    assume "\<exists>msg. enqueued s1 = enqueued s @ [msg] \<and> (is_exit msg \<longrightarrow> msg = Object_message Actor_exit [] None)"
    then obtain msg where "enqueued s1 = enqueued s @ [msg]"
      "is_exit msg \<longrightarrow> msg = Object_message Actor_exit [] None" by blast
    with m have "enqueued s' = enqueued s @ (msg # more) \<and>
       (\<forall>m\<in>set (msg # more). is_exit m \<longrightarrow> m = Object_message Actor_exit [] None)" by simp
    then show ?thesis by blast
  qed
qed

lemma reachable_sentinels:
  assumes "run body evs (actor_init st) = Some s" "m \<in> set (enqueued s)" "is_exit m"
  shows "m = Object_message Actor_exit [] None"
proof -
  from run_enqueued [OF assms(1)] obtain more where "enqueued s = more"
    "\<forall>m\<in>set more. is_exit m \<longrightarrow> m = Object_message Actor_exit [] None"
    by (auto simp: actor_init_def)
  with assms(2,3) show ?thesis by simp
qed

lemma returned_step:
  assumes "m_thread s = Thread_returned" "step body e s = Some s'"
  shows "m_thread s' = Thread_returned \<and> executed s' = executed s"
proof (cases e)
  case (Result_op x)
  with assms(2) have "same_mailbox s s'" by (simp only: step_Result_op)
  with assms(1) show ?thesis by (simp add: same_mailbox_def)
next
  case (Put t f args r)
  with assms(2) obtain s0 msg where "same_mailbox s s0" "s' = push_back t msg s0"
    using step_Put by blast
  from push_back_mailbox [OF this] assms(1) show ?thesis by simp
next
  case (Exit t)
  with assms(2) have "s' = push_back t (Object_message Actor_exit [] None) s"
    by (simp add: step_Exit)
  with assms(1) show ?thesis by (simp add: push_back_def)
next
  case (Sem_post t)
  with assms show ?thesis by (auto simp: sem_post_def split: if_splits)
next
  case (Exec w)
  with assms(2) step_Exec [of body w s s'] assms(1) show ?thesis by auto
next
  case (Destructor t)
  with assms(2) have "s' = push_back t (Object_message Actor_exit [] None) (s\<lparr>destructor := Some t\<rparr>)"
    by (simp add: step_Destructor)
  with assms(1) show ?thesis by (simp add: push_back_def)
qed (use assms in \<open>auto split: option.splits if_splits\<close>)

lemma returned_run:
  "m_thread s = Thread_returned \<Longrightarrow> run body evs s = Some s' \<Longrightarrow>
     m_thread s' = Thread_returned \<and> executed s' = executed s"
proof (induction evs arbitrary: s)
  case Nil
  then show ?case by simp
next
  case (Cons e evs)
  from Cons.prems(2) obtain s1 where 1: "step body e s = Some s1" and 2: "run body evs s1 = Some s'"
    by (auto split: option.splits)
  from returned_step [OF Cons.prems(1) 1] Cons.IH [OF _ 2] show ?case by simp
qed

lemma run_append:
  "run body (evs @ evs') s = (case run body evs s of None \<Rightarrow> None | Some s1 \<Rightarrow> run body evs' s1)"
  by (induction evs arbitrary: s) (auto split: option.splits)

text \<open>Lists with at most one marked element, at the end.\<close>

lemma takeWhile_until_last:
  assumes "\<not> list_ex P (butlast xs)"
  shows "length xs \<le> Suc (length (takeWhile (\<lambda>x. \<not> P x) (xs @ ys)))"
proof (cases xs rule: rev_cases)
  case Nil
  then show ?thesis by simp
next
  case (snoc b l)
  with assms have "\<forall>x\<in>set b. \<not> P x" by (simp add: list_ex_iff)
  then have "takeWhile (\<lambda>x. \<not> P x) (b @ (l # ys)) = b @ takeWhile (\<lambda>x. \<not> P x) (l # ys)"
    by (intro takeWhile_append2) blast
  then have "length b \<le> length (takeWhile (\<lambda>x. \<not> P x) ((b @ [l]) @ ys))"
    by simp
  with snoc show ?thesis by simp
qed

lemma takeWhile_marked_last:
  assumes "\<not> list_ex P (butlast xs)" "list_ex P xs"
  shows "xs = takeWhile (\<lambda>x. \<not> P x) (xs @ ys) @ [last xs] \<and> P (last xs)"
proof (cases xs rule: rev_cases)
  case Nil
  with assms(2) show ?thesis by simp
next
  case (snoc b l)
  with assms(1) have b: "\<forall>x\<in>set b. \<not> P x" by (simp add: list_ex_iff)
  with assms(2) snoc have l: "P l" by (auto simp: list_ex_iff)
  from b have "takeWhile (\<lambda>x. \<not> P x) (b @ (l # ys)) = b @ takeWhile (\<lambda>x. \<not> P x) (l # ys)"
    by (intro takeWhile_append2) blast
  with l have "takeWhile (\<lambda>x. \<not> P x) ((b @ [l]) @ ys) = b" by simp
  with snoc l show ?thesis by simp
qed

section \<open>The handles of messages stay alive until the message is deleted\<close>

lemma map_of_filter_other:
  "k \<noteq> h \<Longrightarrow> map_of (filter (\<lambda>p. fst p \<noteq> h) hs) k = map_of hs k"
  by (induction hs) auto

lemma map_of_assign_other:
  "k \<noteq> h \<Longrightarrow> map_of (map (\<lambda>p. if fst p = h then (h, a) else p) hs) k = map_of hs k"
  by (induction hs) auto

lemma result_step_m_data:
  assumes "result_step e fs = Some fs'" "h \<notin> set (op_handles e)"
  shows "m_data fs' h = m_data fs h"
proof (cases e)
  case (New h' a v)
  with assms show ?thesis by (auto simp: m_data_def split: if_splits)
next
  case (Copy h' r)
  with assms show ?thesis by (auto simp: m_data_def split: if_splits bind_splits)
next
  case (Destroy h')
  with assms show ?thesis by (auto simp: m_data_def map_of_filter_other split: bind_splits)
next
  case (Assign h' r)
  with assms show ?thesis by (auto simp: m_data_def map_of_assign_other split: bind_splits)
next
  case (Get t h')
  with assms show ?thesis by (auto simp: m_data_def split: if_splits bind_splits sum.splits)
next
  case (Wakeup t)
  with assms show ?thesis by (auto simp: m_data_def split: thread.splits bind_splits)
next
  case (Set h' v w)
  with assms show ?thesis by (auto simp: m_data_def split: bind_splits)
next
  case (Spurious t)
  with assms show ?thesis by (auto simp: m_data_def split: thread.splits bind_splits if_splits)
qed

lemma owned_same_mailbox: "same_mailbox s s' \<Longrightarrow> owned s' = owned s"
  by (simp add: owned_def in_flight_def same_mailbox_def)

lemma owned_push_back:
  "owned (push_back t msg s) = owned s @ (case m_result msg of None \<Rightarrow> [] | Some h \<Rightarrow> [h])"
  by (cases "m_result msg") (simp_all add: owned_def in_flight_def push_back_def List.map_filter_def)

lemma futures_push_back: "futures (push_back t msg s) = futures s"
  by (simp add: push_back_def)

lemma owning_Result_op:
  assumes "owning s" "step body (Result_op e) s = Some s'"
  shows "owning s'"
proof -
  from assms(2) have g: "\<forall>h\<in>set (op_handles e). h \<notin> set (owned s)"
    and r: "result_step e (futures s) = Some (futures s')"
    by (auto simp: list_all_iff simp del: result_step.simps split: if_splits bind_splits)
  from assms(2) have o: "owned s' = owned s"
    by (intro owned_same_mailbox step_Result_op)
  have "m_data (futures s') h = m_data (futures s) h" if "h \<in> set (owned s)" for h
    using that g by (intro result_step_m_data [OF r]) blast
  with assms(1) o show ?thesis by (simp add: owning_def)
qed

lemma owning_Put:
  assumes "owning s" "step body (Put t f args r) s = Some s'"
  shows "owning s'"
proof (cases r)
  case None
  with assms(2) have "s' = push_back t (Object_message (Method f) args None) s"
    by (auto split: if_splits)
  with assms(1) show ?thesis by (simp add: owning_def owned_push_back futures_push_back)
next
  case (Some p)
  obtain h hm a where p: "p = (h, hm, a)" by (cases p)
  with Some assms(2) obtain fs1 fs2 where
    1: "result_step (New h a 0) (futures s) = Some fs1" and 2: "result_step (Copy hm h) fs1 = Some fs2"
    and s': "s' = push_back t (Object_message (Method f) args (Some hm)) (s\<lparr>futures := fs2\<rparr>)"
    by (auto simp del: result_step.simps split: if_splits bind_splits)
  from 1 have h: "m_data (futures s) h = None" by (auto split: if_splits)
  from 2 have hm1: "m_data fs1 hm = None" by (auto split: if_splits)
  from 1 have "handles fs1 = (h, a) # handles (futures s)" by (auto split: if_splits)
  with hm1 have hm: "hm \<noteq> h" "m_data (futures s) hm = None"
    by (auto simp: m_data_def split: if_splits)
  from 2 have alive: "m_data fs2 hm \<noteq> None"
    by (auto simp: m_data_def split: if_splits bind_splits)
  have keep: "m_data fs2 k = m_data (futures s) k" if "k \<in> set (owned s)" for k
  proof -
    from that assms(1) have "m_data (futures s) k \<noteq> None" by (simp add: owning_def)
    with h hm have "k \<noteq> h" "k \<noteq> hm" by auto
    then have "m_data fs2 k = m_data fs1 k" "m_data fs1 k = m_data (futures s) k"
      by (auto intro: result_step_m_data [OF 2] result_step_m_data [OF 1])
    then show ?thesis by simp
  qed
  from assms(1) hm(2) have "hm \<notin> set (owned s)" by (auto simp: owning_def)
  moreover have "owned s' = owned s @ [hm]"
    by (simp add: s' owned_push_back) (simp add: owned_def in_flight_def)
  moreover have "futures s' = fs2" by (simp add: s' futures_push_back)
  ultimately show ?thesis using assms(1) alive keep by (auto simp: owning_def)
qed

lemma exec_futures:
  assumes "exec body w msg s = Some s'" "k \<notin> set (case m_result msg of None \<Rightarrow> [] | Some h \<Rightarrow> [h])"
  shows "m_data (futures s') k = m_data (futures s) k"
proof (cases "m_function msg")
  case Actor_exit
  with assms(1) have "futures s' = futures s" by (auto simp: exec_def exit_actor_def)
  then show ?thesis by simp
next
  case (Method f)
  obtain st v where b: "body f (m_args msg) (derived s) = (st, v)"
    by (cases "body f (m_args msg) (derived s)")
  show ?thesis
  proof (cases "m_result msg")
    case None
    with Method b assms(1) have "futures s' = futures s" by (auto simp: exec_def)
    then show ?thesis by simp
  next
    case (Some h)
    with Method b assms(1) have "result_step (Set h v w) (futures s) = Some (futures s')"
      by (auto simp: exec_def simp del: result_step.simps split: bind_splits)
    from result_step_m_data [OF this, of k] assms(2) Some show ?thesis by simp
  qed
qed

lemma delete_message_futures:
  assumes "delete_message msg s = Some s'" "k \<notin> set (case m_result msg of None \<Rightarrow> [] | Some h \<Rightarrow> [h])"
  shows "m_data (futures s') k = m_data (futures s) k"
proof (cases "m_result msg")
  case None
  with assms show ?thesis by (simp add: delete_message_def)
next
  case (Some h)
  with assms(1) have "result_step (Destroy h) (futures s) = Some (futures s')"
    by (auto simp: delete_message_def simp del: result_step.simps split: bind_splits)
  from result_step_m_data [OF this, of k] assms(2) Some show ?thesis by simp
qed

lemma owning_Exec:
  assumes "owning s" "step body (Exec w) s = Some s'"
  shows "owning s'"
proof -
  from assms(2) obtain msg s1 s2 where m: "m_thread s = At_exec msg"
    and e: "exec body w msg s = Some s1" and d: "delete_message msg s1 = Some s2"
    and s': "s' = s2\<lparr>m_thread := At_loop_test, executed := executed s @ [msg]\<rparr>"
    by (auto split: worker.splits bind_splits)
  let ?own = "case m_result msg of None \<Rightarrow> [] | Some h \<Rightarrow> [h]"
  from step_Exec [OF assms(2)] m have mm: "m_messages s' = m_messages s" "m_thread s' = At_loop_test"
    by auto
  from m have o: "owned s = ?own @ List.map_filter m_result (m_messages s)"
    by (cases "m_result msg") (simp_all add: owned_def in_flight_def List.map_filter_def)
  from mm have o': "owned s' = List.map_filter m_result (m_messages s)"
    by (simp add: owned_def in_flight_def)
  have "m_data (futures s') k = m_data (futures s) k" if "k \<in> set (owned s')" for k
  proof -
    from that o o' assms(1) have "k \<notin> set ?own" by (auto simp: owning_def)
    from exec_futures [OF e this] delete_message_futures [OF d this] show ?thesis
      by (simp add: s')
  qed
  with assms(1) o o' show ?thesis by (auto simp: owning_def)
qed

lemma owning_cong: "owning s \<Longrightarrow> owned s' = owned s \<Longrightarrow> futures s' = futures s \<Longrightarrow> owning s'"
  by (simp add: owning_def)

lemma owning_step:
  assumes "owning s" "step body e s = Some s'"
  shows "owning s'"
proof (cases e)
  case (Result_op x)
  with assms show ?thesis by (auto intro: owning_Result_op)
next
  case (Put t f args r)
  with assms show ?thesis by (auto intro: owning_Put)
next
  case (Exit t)
  with assms(2) have "s' = push_back t (Object_message Actor_exit [] None) s"
    by (simp add: step_Exit)
  with assms(1) show ?thesis by (simp add: owning_def owned_push_back futures_push_back)
next
  case (Sem_post t)
  with assms show ?thesis
    by (auto simp: owning_def owned_def in_flight_def sem_post_def split: if_splits)
next
  case Loop_test
  with assms show ?thesis
    by (cases "m_loop s") (auto simp: owning_def owned_def in_flight_def split: worker.splits)
next
  case Sem_wait
  with assms show ?thesis
    by (auto simp: owning_def owned_def in_flight_def split: worker.splits if_splits)
next
  case Sem_wait_interrupted
  with assms show ?thesis
    by (auto simp: owning_def owned_def in_flight_def split: worker.splits)
next
  case Pop
  with assms(2) have "owned s' = owned s" "futures s' = futures s"
    by (auto simp: owned_def in_flight_def List.map_filter_def split: worker.splits list.splits option.splits)
  with assms(1) show ?thesis by (rule owning_cong)
next
  case (Exec w)
  with assms show ?thesis by (auto intro: owning_Exec)
next
  case (Destructor t)
  with assms(2) have "s' = push_back t (Object_message Actor_exit [] None) (s\<lparr>destructor := Some t\<rparr>)"
    by (simp add: step_Destructor)
  moreover have "owned (s\<lparr>destructor := Some t\<rparr>) = owned s"
    by (simp add: owned_def in_flight_def)
  ultimately show ?thesis using assms(1)
    by (simp add: owning_def owned_push_back futures_push_back)
next
  case Join
  with assms show ?thesis
    by (auto simp: owning_def owned_def in_flight_def split: option.splits if_splits)
qed

lemma owning_run: "owning s \<Longrightarrow> run body evs s = Some s' \<Longrightarrow> owning s'"
proof (induction evs arbitrary: s)
  case Nil
  then show ?case by simp
next
  case (Cons e evs)
  from Cons.prems(2) obtain s1 where 1: "step body e s = Some s1" and 2: "run body evs s1 = Some s'"
    by (auto split: option.splits)
  from owning_step [OF Cons.prems(1) 1] 2 show ?case by (rule Cons.IH)
qed

lemma reachable_owning: "run body evs (actor_init st) = Some s \<Longrightarrow> owning s"
  by (rule owning_run [of "actor_init st"])
    (simp_all add: owning_def owned_def in_flight_def actor_init_def List.map_filter_def)

text \<open>The worker can always execute the message it has taken.\<close>

lemma Set_Destroy_enabled:
  assumes "counted fs" "m_data fs h = Some a"
  shows "\<exists>w fs1 fs2. result_step (Set h v w) fs = Some fs1 \<and> result_step (Destroy h) fs1 = Some fs2"
proof -
  from counted_alive [OF assms] obtain d where d: "heap fs a = Some d" by blast
  define w where "w = (case m_cond d of [] \<Rightarrow> None | t # ts \<Rightarrow> Some t)"
  have "\<exists>ws. pthread_cond_signal w (m_cond d) = Some ws"
    by (cases "m_cond d") (auto simp: w_def pthread_cond_signal_def)
  then obtain d' where "set_data v w d = Some d'" by (auto simp: set_data_def)
  with assms(2) d have "result_step (Set h v w) fs =
      Some (fs\<lparr>heap := (heap fs)(a := Some d'), threads := wake w a (threads fs)\<rparr>)"
    by simp
  moreover from assms(2) have "\<exists>fs2. result_step (Destroy h)
      (fs\<lparr>heap := (heap fs)(a := Some d'), threads := wake w a (threads fs)\<rparr>) = Some fs2"
    by (simp add: m_data_def heap_dec_ref_def)
  ultimately show ?thesis by blast
qed

lemma Destroy_enabled:
  assumes "counted fs" "m_data fs h = Some a"
  shows "\<exists>fs2. result_step (Destroy h) fs = Some fs2"
proof -
  from counted_alive [OF assms] obtain d where d: "heap fs a = Some d" by blast
  with assms(2) show ?thesis by (simp add: heap_dec_ref_def)
qed

lemma Exec_enabled:
  assumes "run body evs (actor_init st) = Some s" "m_thread s = At_exec msg"
  shows "\<exists>w s'. step body (Exec w) s = Some s'"
proof (cases "m_result msg")
  case None
  then have "\<exists>s1. exec body None msg s = Some s1 \<and> delete_message msg s1 = Some s1"
    by (cases "m_function msg") (auto simp: exec_def delete_message_def split: prod.splits)
  with assms(2) show ?thesis by (intro exI [of _ None]) auto
next
  case (Some h)
  from assms(2) Some have "h \<in> set (owned s)"
    by (simp add: owned_def in_flight_def List.map_filter_def)
  with reachable_owning [OF assms(1)] obtain a where a: "m_data (futures s) h = Some a"
    by (auto simp: owning_def)
  note c = reachable_counted [OF assms(1)]
  show ?thesis
  proof (cases "m_function msg")
    case Actor_exit
    from Destroy_enabled [OF c a] obtain fs2 where "result_step (Destroy h) (futures s) = Some fs2" ..
    with Actor_exit Some assms(2) show ?thesis
      by (intro exI [of _ None]) (auto simp: exec_def delete_message_def exit_actor_def simp del: result_step.simps)
  next
    case (Method f)
    obtain st' v where b: "body f (m_args msg) (derived s) = (st', v)"
      by (cases "body f (m_args msg) (derived s)")
    from Set_Destroy_enabled [OF c a, of v] obtain w fs1 fs2 where
      "result_step (Set h v w) (futures s) = Some fs1" "result_step (Destroy h) fs1 = Some fs2" by blast
    with Method Some assms(2) b show ?thesis
      by (intro exI [of _ w]) (auto simp: exec_def delete_message_def simp del: result_step.simps)
  qed
qed

text \<open>
  The worker, having passed \<^verbatim>\<open>sem_wait\<close> with a message in the list, takes the head of
  the list and executes it.
\<close>

lemma pop_exec:
  assumes "run body evs (actor_init st) = Some s" "m_thread s = At_pop" "m_messages s = msg # rest"
  shows "\<exists>w s'. run body [Pop, Exec w] s = Some s' \<and>
           executed s' = executed s @ [msg] \<and> m_messages s' = rest \<and> m_thread s' = At_loop_test \<and>
           m_sem s' = m_sem s \<and> m_loop s' = (m_loop s \<and> \<not> is_exit msg)"
proof -
  define s3 where "s3 = s\<lparr>m_messages := rest, m_thread := At_exec msg\<rparr>"
  from assms(2,3) have r3: "run body [Pop] s = Some s3"
    by (simp add: s3_def)
  with assms(1) have r: "run body (evs @ [Pop]) (actor_init st) = Some s3"
    by (simp add: run_append)
  have m3: "m_thread s3 = At_exec msg" by (simp add: s3_def)
  from Exec_enabled [OF r m3] obtain w s' where e: "step body (Exec w) s3 = Some s'"
    by blast
  from step_Exec [OF e] m3 have "executed s' = executed s3 @ [msg]" "m_messages s' = m_messages s3"
    "m_thread s' = At_loop_test" "m_sem s' = m_sem s3" "m_loop s' = (m_loop s3 \<and> \<not> is_exit msg)"
    by auto
  then have "executed s' = executed s @ [msg]" "m_messages s' = rest"
    "m_thread s' = At_loop_test" "m_sem s' = m_sem s" "m_loop s' = (m_loop s \<and> \<not> is_exit msg)"
    by (simp_all add: s3_def)
  moreover from r3 e have "run body ([Pop] @ [Exec w]) s = Some s'"
    by (simp only: run_append) simp
  then have "run body [Pop, Exec w] s = Some s'"
    by (simp only: append_Cons append_Nil)
  ultimately show ?thesis by blast
qed

text \<open>One iteration of the worker loop, from the loop test with a message posted.\<close>

lemma full_iteration:
  assumes "run body evs (actor_init st) = Some s" "m_thread s = At_loop_test" "m_loop s"
    "0 < m_sem s" "m_messages s = msg # rest"
  shows "\<exists>w s'. run body [Loop_test, Sem_wait, Pop, Exec w] s = Some s' \<and>
           executed s' = executed s @ [msg] \<and> m_messages s' = rest \<and> m_thread s' = At_loop_test \<and>
           m_sem s' = m_sem s - 1 \<and> m_loop s' = (\<not> is_exit msg)"
proof -
  define s2 where "s2 = s\<lparr>m_thread := At_sem_wait, m_sem := m_sem s - 1, m_thread := At_pop\<rparr>"
  from assms(2-4) have r2: "run body [Loop_test, Sem_wait] s = Some s2"
    by (simp add: s2_def)
  with assms(1) have r: "run body (evs @ [Loop_test, Sem_wait]) (actor_init st) = Some s2"
    by (simp add: run_append)
  have "m_thread s2 = At_pop" "m_messages s2 = msg # rest"
    using assms(5) by (simp_all add: s2_def)
  from pop_exec [OF r this] obtain w s' where pe: "run body [Pop, Exec w] s2 = Some s'"
    and s': "executed s' = executed s2 @ [msg]" "m_messages s' = rest" "m_thread s' = At_loop_test"
      "m_sem s' = m_sem s2" "m_loop s' = (m_loop s2 \<and> \<not> is_exit msg)"
    by blast
  from r2 pe have "run body ([Loop_test, Sem_wait] @ [Pop, Exec w]) s = Some s'"
    by (simp only: run_append option.case)
  then have "run body [Loop_test, Sem_wait, Pop, Exec w] s = Some s'"
    by (simp only: append_Cons append_Nil)
  moreover from s' assms(3) have "executed s' = executed s @ [msg]" "m_sem s' = m_sem s - 1"
    "m_loop s' = (\<not> is_exit msg)"
    by (simp_all add: s2_def)
  ultimately show ?thesis using s'(2,3) by blast
qed

text \<open>
  From the loop test, with the semaphore posted for every message of the list, the
  worker can execute the messages of the list in order, as far as the first exit message,
  after which it returns; with no exit message in the list it executes them all and waits
  on the semaphore. No \<^verbatim>\<open>sem_wait\<close> is interrupted on the way.
\<close>

lemma drain:
  assumes "run body evs (actor_init st) = Some s" "m_thread s = At_loop_test"
    "length (m_messages s) \<le> m_sem s" "m_loop s"
  shows "\<exists>ws s'. run body ws s = Some s' \<and> Sem_wait_interrupted \<notin> set ws \<and>
     (if list_ex is_exit (m_messages s)
      then executed s' = executed s @ takeWhile (\<lambda>m. \<not> is_exit m) (m_messages s) @
             [Object_message Actor_exit [] None] \<and>
           m_thread s' = Thread_returned
      else executed s' = executed s @ m_messages s \<and> m_messages s' = [] \<and>
           m_thread s' = At_sem_wait)"
  using assms
proof (induction "m_messages s" arbitrary: evs s)
  case Nil
  then have "run body [Loop_test] s = Some (s\<lparr>m_thread := At_sem_wait\<rparr>)" by simp
  moreover from Nil(1) [symmetric] have "\<not> list_ex is_exit (m_messages s)" "m_messages s = []"
    by simp_all
  ultimately show ?case by (intro exI [of _ "[Loop_test]"] exI [of _ "s\<lparr>m_thread := At_sem_wait\<rparr>"]) simp
next
  case (Cons msg rest)
  note ms = Cons.hyps(2) [symmetric]
  from Cons.prems(1) have f: "fifo s" by (simp add: reachable_invariants)
  from Cons.prems(3) ms have "0 < m_sem s" by simp
  from full_iteration [OF Cons.prems(1,2,4) this ms] obtain w s1 where
    it: "run body [Loop_test, Sem_wait, Pop, Exec w] s = Some s1"
    and s1: "executed s1 = executed s @ [msg]" "m_messages s1 = rest" "m_thread s1 = At_loop_test"
      "m_sem s1 = m_sem s - 1" "m_loop s1 = (\<not> is_exit msg)"
    by blast
  from Cons.prems(1) it have r1: "run body (evs @ [Loop_test, Sem_wait, Pop, Exec w]) (actor_init st) = Some s1"
    by (simp only: run_append option.case)
  show ?case
  proof (cases "is_exit msg")
    case True
    from f ms have "enqueued s = executed s @ in_flight s @ msg # rest"
      by (simp add: fifo_def)
    then have "msg \<in> set (enqueued s)" by simp
    from reachable_sentinels [OF Cons.prems(1) this True]
    have msg: "msg = Object_message Actor_exit [] None" .
    from s1 True have "run body [Loop_test] s1 = Some (s1\<lparr>m_thread := Thread_returned\<rparr>)"
      by simp
    with it have "run body ([Loop_test, Sem_wait, Pop, Exec w] @ [Loop_test]) s =
        Some (s1\<lparr>m_thread := Thread_returned\<rparr>)"
      by (simp only: run_append option.case)
    moreover from True ms have "list_ex is_exit (m_messages s)"
      "takeWhile (\<lambda>m. \<not> is_exit m) (m_messages s) = []"
      by simp_all
    ultimately show ?thesis using s1(1) msg
      by (intro exI [of _ "[Loop_test, Sem_wait, Pop, Exec w] @ [Loop_test]"]
          exI [of _ "s1\<lparr>m_thread := Thread_returned\<rparr>"]) simp
  next
    case False
    from Cons.prems(3) ms s1 have "length (m_messages s1) \<le> m_sem s1" by simp
    with False s1 have p: "m_thread s1 = At_loop_test" "length (m_messages s1) \<le> m_sem s1" "m_loop s1"
      by simp_all
    from Cons.hyps(1) [OF s1(2) [symmetric] r1 p] obtain ws s' where
      ws: "run body ws s1 = Some s'" "Sem_wait_interrupted \<notin> set ws"
      and res: "if list_ex is_exit (m_messages s1)
        then executed s' = executed s1 @ takeWhile (\<lambda>m. \<not> is_exit m) (m_messages s1) @
               [Object_message Actor_exit [] None] \<and> m_thread s' = Thread_returned
        else executed s' = executed s1 @ m_messages s1 \<and> m_messages s' = [] \<and>
             m_thread s' = At_sem_wait"
      by blast
    from it ws(1) have "run body ([Loop_test, Sem_wait, Pop, Exec w] @ ws) s = Some s'"
      by (simp only: run_append option.case)
    moreover from False ms have "list_ex is_exit (m_messages s) = list_ex is_exit rest"
      "takeWhile (\<lambda>m. \<not> is_exit m) (m_messages s) = msg # takeWhile (\<lambda>m. \<not> is_exit m) rest"
      "m_messages s = msg # rest"
      by simp_all
    ultimately show ?thesis using res s1(1,2) ws(2)
      by (intro exI [of _ "[Loop_test, Sem_wait, Pop, Exec w] @ ws"] exI [of _ s'])
        (simp split: if_splits)
  qed
qed

lemma executed_prefix:
  assumes "run body evs (actor_init st) = Some s"
  shows "executed s = take (length (executed s)) (enqueued s)"
    and "length (executed s) \<le> Suc (length (takeWhile (\<lambda>m. \<not> is_exit m) (enqueued s)))"
proof -
  from assms have f: "executed s @ in_flight s @ m_messages s = enqueued s"
    and b: "\<not> list_ex is_exit (butlast (executed s))"
    using reachable_invariants [OF assms] by (simp_all add: fifo_def stopping_def)
  from f have "take (length (executed s)) (enqueued s) = executed s"
    by (metis append_eq_conv_conj)
  then show "executed s = take (length (executed s)) (enqueued s)" by simp
  from takeWhile_until_last [OF b, of "in_flight s @ m_messages s"] f
  show "length (executed s) \<le> Suc (length (takeWhile (\<lambda>m. \<not> is_exit m) (enqueued s)))"
    by simp
qed

lemma joined_executed:
  assumes "run body evs (actor_init st) = Some s" "joined s"
  shows "executed s = takeWhile (\<lambda>m. \<not> is_exit m) (enqueued s) @ [Object_message Actor_exit [] None]"
    and "m_thread s = Thread_returned"
proof -
  from reachable_invariants [OF assms(1)] have f: "executed s @ in_flight s @ m_messages s = enqueued s"
    and st: "stopping s" by (simp_all add: fifo_def)
  from st assms(2) show t: "m_thread s = Thread_returned" by (simp add: stopping_def)
  with st have "list_ex is_exit (executed s)" "\<not> list_ex is_exit (butlast (executed s))"
    by (auto simp: stopping_def)
  from takeWhile_marked_last [OF this(2,1), of "in_flight s @ m_messages s"] f
  have e: "executed s = takeWhile (\<lambda>m. \<not> is_exit m) (enqueued s) @ [last (executed s)]"
    and l: "is_exit (last (executed s))" by simp_all
  from e have "last (executed s) \<in> set (executed s)" by (metis in_set_conv_decomp)
  with f have "last (executed s) \<in> set (enqueued s)" by (metis Un_iff set_append)
  from reachable_sentinels [OF assms(1) this l] e
  show "executed s = takeWhile (\<lambda>m. \<not> is_exit m) (enqueued s) @ [Object_message Actor_exit [] None]"
    by simp
qed

section \<open>The value and the flag of a result\<close>

lemma heap_dec_ref_value:
  "heap_dec_ref a hp = Some hp' \<Longrightarrow> hp b = Some d \<Longrightarrow> hp' b = Some d' \<Longrightarrow>
     m_value d' = m_value d \<and> m_value_set d' = m_value_set d"
  by (cases "b = a") (auto simp: heap_dec_ref_def dec_ref_def Let_def split: option.splits if_splits)

lemma heap_inc_ref_value:
  "heap_inc_ref a hp = Some hp' \<Longrightarrow> hp b = Some d \<Longrightarrow> hp' b = Some d' \<Longrightarrow>
     m_value d' = m_value d \<and> m_value_set d' = m_value_set d"
  by (cases "b = a") (auto simp: heap_inc_ref_def inc_ref_def split: option.splits)

lemma flag_monotone:
  assumes "result_step e s = Some s'" "heap s a = Some d" "m_value_set d" "heap s' a = Some d'"
  shows "m_value_set d'"
proof (cases e)
  case (New h b v)
  with assms show ?thesis by (cases "b = a") (auto split: if_splits)
next
  case (Copy h r)
  with assms(1) obtain b hp where "heap_inc_ref b (heap s) = Some hp" "heap s' = hp"
    by (auto split: if_splits bind_splits)
  with heap_inc_ref_value [of b "heap s" hp a d d'] assms(2-4) show ?thesis by simp
next
  case (Destroy h)
  with assms(1) obtain b hp where "heap_dec_ref b (heap s) = Some hp" "heap s' = hp"
    by (auto split: bind_splits)
  with heap_dec_ref_value [of b "heap s" hp a d d'] assms(2-4) show ?thesis by simp
next
  case (Assign h r)
  with assms(1) obtain b c hp1 hp2 where 1: "heap_inc_ref b (heap s) = Some hp1"
    and 2: "heap_dec_ref c hp1 = Some hp2" and 3: "heap s' = hp2"
    by (auto split: bind_splits)
  from 1 assms(2) obtain d1 where d1: "hp1 a = Some d1"
    by (cases "a = b") (auto simp: heap_inc_ref_def split: option.splits)
  from heap_inc_ref_value [OF 1 assms(2) d1] assms(3) have "m_value_set d1" by simp
  with heap_dec_ref_value [OF 2 d1, of d'] assms(4) 3 show ?thesis by simp
next
  case (Get t h)
  with assms show ?thesis
    by (auto simp: get_data_def split: if_splits bind_splits)
next
  case (Wakeup t)
  with assms show ?thesis by (auto split: thread.splits bind_splits)
next
  case (Set h v w)
  with assms show ?thesis by (auto simp: set_data_def split: bind_splits if_splits)
next
  case (Spurious t)
  with assms show ?thesis by (auto split: thread.splits bind_splits if_splits)
qed

lemma Set_effect:
  assumes "result_step (Set h v w) fs = Some fs1" "m_data fs h' = m_data fs h"
  shows "\<exists>a d1. m_data fs1 h' = Some a \<and> heap fs1 a = Some d1 \<and> m_value d1 = v \<and> m_value_set d1"
  using assms by (auto simp: set_data_def m_data_def split: bind_splits)

lemma Get_of_set:
  assumes "m_data fs h = Some a" "heap fs a = Some d" "m_value_set d" "\<not> blocked (threads fs t)"
  shows "result_step (Get t h) fs = Some (fs\<lparr>threads := (threads fs)(t := Returned (m_value d))\<rparr>)"
  using assms by (simp add: get_data_def)

lemma Destroy_heap:
  "result_step (Destroy h) fs = Some fs' \<Longrightarrow> \<exists>b. heap_dec_ref b (heap fs) = Some (heap fs')"
  by (auto split: bind_splits)

lemma owned_after_Exec:
  assumes "step body (Exec w) s = Some s'"
  shows "set (owned s') \<subseteq> set (owned s)"
proof -
  from step_Exec [OF assms] obtain msg where "m_thread s = At_exec msg" "m_thread s' = At_loop_test"
    "m_messages s' = m_messages s" by blast
  then show ?thesis
    by (cases "m_result msg") (auto simp: owned_def in_flight_def List.map_filter_def)
qed

lemma Exec_then_get:
  assumes r: "run body evs (actor_init st) = Some s"
    and m: "m_thread s = At_exec (Object_message (Method f) args (Some hm))"
    and al: "m_data (futures s) h = m_data (futures s) hm"
    and no: "h \<notin> set (owned s)"
    and e: "step body (Exec w) s = Some s'"
    and t: "\<not> blocked (threads (futures s') t)"
  shows "\<exists>s''. step body (Result_op (Get t h)) s' = Some s'' \<and>
           threads (futures s'') t = Returned (snd (body f args (derived s)))"
proof -
  obtain st' v where b: "body f args (derived s) = (st', v)" by (cases "body f args (derived s)")
  from e m obtain s1 s2 where e1: "exec body w (Object_message (Method f) args (Some hm)) s = Some s1"
    and e2: "delete_message (Object_message (Method f) args (Some hm)) s1 = Some s2"
    and s': "s' = s2\<lparr>m_thread := At_loop_test,
        executed := executed s @ [Object_message (Method f) args (Some hm)]\<rparr>"
    by (auto split: bind_splits)
  from e1 b have 1: "result_step (Set hm v w) (futures s) = Some (futures s1)"
    by (auto simp: exec_def simp del: result_step.simps split: bind_splits)
  from e2 have 2: "result_step (Destroy hm) (futures s1) = Some (futures s2)"
    by (auto simp: delete_message_def simp del: result_step.simps split: bind_splits)
  have f': "futures s' = futures s2" by (simp add: s')
  from m have "hm \<in> set (owned s)" by (simp add: owned_def in_flight_def List.map_filter_def)
  with no have ne: "h \<noteq> hm" by blast
  from Set_effect [OF 1 al] obtain a d1 where a: "m_data (futures s1) h = Some a"
    "heap (futures s1) a = Some d1" "m_value d1 = v" "m_value_set d1" by blast
  from result_step_m_data [OF 2, of h] ne a(1) have a2: "m_data (futures s2) h = Some a" by simp
  from r e have "run body (evs @ [Exec w]) (actor_init st) = Some s'" by (simp add: run_append)
  then have "counted (futures s')" by (rule reachable_counted)
  with f' a2 obtain d2 where d2: "heap (futures s2) a = Some d2"
    using counted_alive [of "futures s2" h a] by auto
  from Destroy_heap [OF 2] obtain b' where "heap_dec_ref b' (heap (futures s1)) = Some (heap (futures s2))" ..
  from heap_dec_ref_value [OF this a(2) d2] a(3,4) have v2: "m_value d2 = v" "m_value_set d2"
    by simp_all
  from t f' have "\<not> blocked (threads (futures s2) t)" by simp
  from Get_of_set [OF a2 d2 v2(2) this] v2(1)
  have g: "result_step (Get t h) (futures s') =
      Some ((futures s')\<lparr>threads := (threads (futures s'))(t := Returned v)\<rparr>)"
    by (simp only: f')
  from owned_after_Exec [OF e] no have "h \<notin> set (owned s')" by blast
  with g have "step body (Result_op (Get t h)) s' =
      Some (s'\<lparr>futures := (futures s')\<lparr>threads := (threads (futures s'))(t := Returned v)\<rparr>\<rparr>)"
    by (simp del: result_step.simps)
  with b show ?thesis by simp
qed

text \<open>
  A thread suspended in \<^verbatim>\<open>get\<close> that the signal of \<^verbatim>\<open>set\<close> wakes, or that had left the wait
  before, reads the value that was set.
\<close>

lemma Set_wakes:
  assumes "result_step (Set h v w) fs = Some fs1" "m_data fs h = Some a"
    "w = Some t \<or> threads fs t = Woken a"
  shows "threads fs1 t = Woken a"
    and "\<exists>d1. heap fs1 a = Some d1 \<and> m_value d1 = v \<and> m_value_set d1"
  using assms by (auto simp: set_data_def wake_def split: bind_splits option.splits)

lemma Set_handles:
  "result_step (Set h v w) fs = Some fs1 \<Longrightarrow> handles fs1 = handles fs"
  by (auto split: bind_splits)

lemma Wakeup_reads:
  assumes "threads fs t = Woken a" "heap fs a = Some d"
  shows "result_step (Wakeup t) fs = Some (fs\<lparr>threads := (threads fs)(t := Returned (m_value d))\<rparr>)"
  using assms by (simp add: get_wakeup_def)

lemma Destroy_threads:
  "result_step (Destroy h) fs = Some fs' \<Longrightarrow> threads fs' = threads fs"
  by (auto split: bind_splits)

lemma Exec_then_wakeup:
  assumes r: "run body evs (actor_init st) = Some s"
    and m: "m_thread s = At_exec (Object_message (Method f) args (Some hm))"
    and hm: "m_data (futures s) hm = Some a"
    and al: "m_data (futures s) h = Some a"
    and no: "h \<notin> set (owned s)"
    and e: "step body (Exec w) s = Some s'"
    and t: "w = Some t \<or> threads (futures s) t = Woken a"
  shows "\<exists>s''. step body (Result_op (Wakeup t)) s' = Some s'' \<and>
           threads (futures s'') t = Returned (snd (body f args (derived s)))"
proof -
  obtain st' v where b: "body f args (derived s) = (st', v)" by (cases "body f args (derived s)")
  from e m obtain s1 s2 where e1: "exec body w (Object_message (Method f) args (Some hm)) s = Some s1"
    and e2: "delete_message (Object_message (Method f) args (Some hm)) s1 = Some s2"
    and s': "s' = s2\<lparr>m_thread := At_loop_test,
        executed := executed s @ [Object_message (Method f) args (Some hm)]\<rparr>"
    by (auto split: bind_splits)
  from e1 b have 1: "result_step (Set hm v w) (futures s) = Some (futures s1)"
    by (auto simp: exec_def simp del: result_step.simps split: bind_splits)
  from e2 have 2: "result_step (Destroy hm) (futures s1) = Some (futures s2)"
    by (auto simp: delete_message_def simp del: result_step.simps split: bind_splits)
  have f': "futures s' = futures s2" by (simp add: s')
  from m have "hm \<in> set (owned s)" by (simp add: owned_def in_flight_def List.map_filter_def)
  with no have ne: "h \<noteq> hm" by blast
  from Set_wakes [OF 1 hm t] obtain d1 where w1: "threads (futures s1) t = Woken a"
    and d1: "heap (futures s1) a = Some d1" "m_value d1 = v" "m_value_set d1" by blast
  from 1 have "handles (futures s1) = handles (futures s)"
    by (rule Set_handles)
  with al have "m_data (futures s1) h = Some a"
    by (simp add: m_data_def)
  with result_step_m_data [OF 2, of h] ne have a2: "m_data (futures s2) h = Some a" by simp
  from r e have "run body (evs @ [Exec w]) (actor_init st) = Some s'" by (simp add: run_append)
  then have "counted (futures s')" by (rule reachable_counted)
  with f' a2 obtain d2 where d2: "heap (futures s2) a = Some d2"
    using counted_alive [of "futures s2" h a] by auto
  from Destroy_heap [OF 2] obtain b' where "heap_dec_ref b' (heap (futures s1)) = Some (heap (futures s2))" ..
  from heap_dec_ref_value [OF this d1(1) d2] d1(2) have v2: "m_value d2 = v" by simp
  from Destroy_threads [OF 2] w1 have "threads (futures s2) t = Woken a" by simp
  from Wakeup_reads [OF this d2] v2
  have "result_step (Wakeup t) (futures s') =
      Some ((futures s')\<lparr>threads := (threads (futures s'))(t := Returned v)\<rparr>)"
    by (simp only: f')
  then have "step body (Result_op (Wakeup t)) s' =
      Some (s'\<lparr>futures := (futures s')\<lparr>threads := (threads (futures s'))(t := Returned v)\<rparr>\<rparr>)"
    by (simp del: result_step.simps)
  with b show ?thesis by simp
qed

text \<open>The flag in the steps of the whole system, and a call with a result accepted.\<close>

lemma Set_keeps:
  "result_step (Set h v w) fs = Some fs1 \<Longrightarrow> heap fs a = Some d \<Longrightarrow> \<exists>d1. heap fs1 a = Some d1"
  by (auto split: bind_splits)

lemma exec_flag:
  assumes "exec body w msg s = Some s1" "heap (futures s) a = Some d" "m_value_set d"
  shows "\<exists>d1. heap (futures s1) a = Some d1 \<and> m_value_set d1"
proof (cases "m_function msg")
  case Actor_exit
  with assms show ?thesis by (auto simp: exec_def exit_actor_def)
next
  case (Method f)
  obtain st v where b: "body f (m_args msg) (derived s) = (st, v)"
    by (cases "body f (m_args msg) (derived s)")
  show ?thesis
  proof (cases "m_result msg")
    case None
    with Method b assms show ?thesis by (auto simp: exec_def)
  next
    case (Some h)
    with Method b assms(1) have r: "result_step (Set h v w) (futures s) = Some (futures s1)"
      by (auto simp: exec_def simp del: result_step.simps split: bind_splits)
    from Set_keeps [OF r assms(2)] obtain d1 where "heap (futures s1) a = Some d1" ..
    with flag_monotone [OF r assms(2,3)] show ?thesis by blast
  qed
qed

lemma delete_message_flag:
  assumes "delete_message msg s1 = Some s2" "heap (futures s1) a = Some d1" "m_value_set d1"
    "heap (futures s2) a = Some d'"
  shows "m_value_set d'"
proof (cases "m_result msg")
  case None
  with assms show ?thesis by (auto simp: delete_message_def)
next
  case (Some h)
  with assms(1) have "result_step (Destroy h) (futures s1) = Some (futures s2)"
    by (auto simp: delete_message_def simp del: result_step.simps split: bind_splits)
  from flag_monotone [OF this assms(2,3,4)] show ?thesis .
qed

lemma flag_monotone_step:
  assumes "step body e x = Some x'" "heap (futures x) a = Some d" "m_value_set d"
    "heap (futures x') a = Some d'"
  shows "m_value_set d'"
proof (cases e)
  case (Result_op o')
  with assms(1) have "result_step o' (futures x) = Some (futures x')"
    by (auto simp del: result_step.simps split: if_splits bind_splits)
  from flag_monotone [OF this assms(2,3,4)] show ?thesis .
next
  case (Put t f args r)
  show ?thesis
  proof (cases r)
    case None
    with Put assms show ?thesis by (auto simp: push_back_def split: if_splits)
  next
    case (Some p)
    obtain h hm b where p: "p = (h, hm, b)" by (cases p)
    with Some Put assms(1) obtain fs1 where
      1: "result_step (New h b 0) (futures x) = Some fs1"
      and 2: "result_step (Copy hm h) fs1 = Some (futures x')"
      by (auto simp: push_back_def simp del: result_step.simps split: if_splits bind_splits)
    from 1 assms(2) have "heap fs1 a = Some d" by (cases "a = b") (auto split: if_splits)
    from flag_monotone [OF 2 this assms(3,4)] show ?thesis .
  qed
next
  case (Exec w)
  with assms(1) obtain msg s1 s2 where e: "exec body w msg x = Some s1"
    and d: "delete_message msg s1 = Some s2" and f: "futures x' = futures s2"
    by (auto split: worker.splits bind_splits)
  from exec_flag [OF e assms(2,3)] obtain d1 where "heap (futures s1) a = Some d1" "m_value_set d1"
    by blast
  from delete_message_flag [OF d this] assms(4) f show ?thesis by simp
qed (use assms in \<open>auto simp: push_back_def sem_post_def split: if_splits worker.splits list.splits option.splits\<close>)

lemma Put_accepted:
  assumes "can_call s t" "put_template Non_void (length args) = Inr ()"
    and "m_data (futures s) h = None" "m_data (futures s) hm = None" "h \<noteq> hm"
    and "heap (futures s) a = None" "Suc (length (handles (futures s))) < max_handles"
  shows "step body (Put t f args (Some (h, hm, a))) s =
           Some (push_back t (Object_message (Method f) args (Some hm))
             (s\<lparr>futures := (futures s)
                \<lparr>heap := (heap (futures s))(a := Some (inc_ref (data_init 0))),
                 handles := (hm, a) # (h, a) # handles (futures s)\<rparr>\<rparr>))"
  using assms by (simp add: m_data_def heap_inc_ref_def)

text \<open>A \<^verbatim>\<open>set\<close> releases one of the threads suspended on the result, if any.\<close>

lemma set_releases_one:
  assumes "result_step (Set h v w) s = Some s'" "m_data s h = Some a" "heap s a = Some d"
  shows "\<exists>d'. heap s' a = Some d' \<and> m_value d' = v \<and> m_value_set d' \<and>
           length (m_cond d') = length (m_cond d) - 1"
  using assms
  by (cases w) (auto simp: set_data_def pthread_cond_signal_def length_remove1 split: if_splits)

section \<open>The claims\<close>

subsection \<open>C1\<close>

text \<open>
  C1, as the code has it. The specification says that every invocation enqueued with \<^verbatim>\<open>put\<close> is
  executed, in the order of enqueueing. That is so as far as the first exit message: the
  worker leaves the loop after executing it. The run \<open>exit_then_put\<close> enqueues the exit
  message and then a call of member function 0; the worker executes the exit message and
  returns, and the call stays in the list.
\<close>

theorem fifo_counterexample:
  "run unit_body exit_then_put (actor_init 0) = Some (the (run unit_body exit_then_put (actor_init 0))) \<and>
   enqueued (the (run unit_body exit_then_put (actor_init 0))) =
     [Object_message Actor_exit [] None, Object_message (Method 0) [] None] \<and>
   executed (the (run unit_body exit_then_put (actor_init 0))) = [Object_message Actor_exit [] None] \<and>
   m_messages (the (run unit_body exit_then_put (actor_init 0))) = [Object_message (Method 0) [] None] \<and>
   m_thread (the (run unit_body exit_then_put (actor_init 0))) = Thread_returned"
  by (simp add: exit_then_put_def model_defs)

text \<open>
  C1, amended. In every reachable state the messages executed so far, then the message
  being executed (at most one), then the messages of the list are, in this order, the
  messages enqueued: \<^verbatim>\<open>push_back\<close> appends at the tail and the worker takes the head, so
  nothing is reordered, nothing leaves the list without being executed, and no two
  messages are executed at once. The loop flag is set exactly as long as no exit message
  has been executed, and the messages executed are an initial part of the messages
  enqueued that ends, at the latest, with the first exit message: a message enqueued
  behind it is not executed. When the worker has left \<^verbatim>\<open>sem_wait\<close> (with the semaphore
  taken or not) and the list is not empty, it takes the head of the list and executes
  it. From the loop test, with the semaphore posted for every message of the list, the
  worker can go on, with no \<^verbatim>\<open>sem_wait\<close> interrupted, to execute the messages of the list
  in order as far as the first exit message (all of them if there is none).
\<close>

theorem fifo_up_to_exit:
  assumes "run body evs (actor_init st) = Some s"
  shows "executed s @ in_flight s @ m_messages s = enqueued s \<and>
         length (in_flight s) \<le> 1 \<and>
         m_loop s = (\<not> list_ex is_exit (executed s)) \<and>
         executed s = take (length (executed s)) (enqueued s) \<and>
         length (executed s) \<le> Suc (length (takeWhile (\<lambda>m. \<not> is_exit m) (enqueued s))) \<and>
         (m_thread s = At_pop \<and> m_messages s = msg # rest \<longrightarrow>
            (\<exists>w s'. run body [Pop, Exec w] s = Some s' \<and>
               executed s' = executed s @ [msg] \<and> m_messages s' = rest)) \<and>
         (m_thread s = At_loop_test \<and> m_loop s \<and> length (m_messages s) \<le> m_sem s \<longrightarrow>
            (\<exists>ws s'. run body ws s = Some s' \<and> Sem_wait_interrupted \<notin> set ws \<and>
               (if list_ex is_exit (m_messages s)
                then executed s' = executed s @ takeWhile (\<lambda>m. \<not> is_exit m) (m_messages s) @
                       [Object_message Actor_exit [] None] \<and>
                     m_thread s' = Thread_returned
                else executed s' = executed s @ m_messages s \<and> m_messages s' = [] \<and>
                     m_thread s' = At_sem_wait)))"
proof -
  from assms have "fifo s" "stopping s" by (simp_all add: reachable_invariants)
  then have "executed s @ in_flight s @ m_messages s = enqueued s"
    "m_loop s = (\<not> list_ex is_exit (executed s))"
    by (simp_all add: fifo_def stopping_def)
  moreover have "length (in_flight s) \<le> 1"
    by (simp add: in_flight_def split: worker.splits)
  moreover note executed_prefix [OF assms]
  moreover have "\<exists>w s'. run body [Pop, Exec w] s = Some s' \<and>
               executed s' = executed s @ [msg] \<and> m_messages s' = rest"
    if "m_thread s = At_pop" "m_messages s = msg # rest"
    using pop_exec [OF assms that] by blast
  moreover have "\<exists>ws s'. run body ws s = Some s' \<and> Sem_wait_interrupted \<notin> set ws \<and>
               (if list_ex is_exit (m_messages s)
                then executed s' = executed s @ takeWhile (\<lambda>m. \<not> is_exit m) (m_messages s) @
                       [Object_message Actor_exit [] None] \<and>
                     m_thread s' = Thread_returned
                else executed s' = executed s @ m_messages s \<and> m_messages s' = [] \<and>
                     m_thread s' = At_sem_wait)"
    if "m_thread s = At_loop_test" "m_loop s" "length (m_messages s) \<le> m_sem s"
    using drain [OF assms that(1,3,2)] .
  ultimately show ?thesis by blast
qed

theorem fifo_up_to_exit_witness:
  "run unit_body fifo_run (actor_init 0) = Some (the (run unit_body fifo_run (actor_init 0))) \<and>
   m_thread (the (run unit_body fifo_run (actor_init 0))) = At_loop_test \<and>
   m_loop (the (run unit_body fifo_run (actor_init 0))) \<and>
   length (m_messages (the (run unit_body fifo_run (actor_init 0)))) \<le>
     m_sem (the (run unit_body fifo_run (actor_init 0))) \<and>
   enqueued (the (run unit_body fifo_run (actor_init 0))) =
     [Object_message (Method 0) [] None, Object_message (Method 1) [5] None] \<and>
   executed (the (run unit_body fifo_run (actor_init 0))) = [Object_message (Method 0) [] None] \<and>
   m_messages (the (run unit_body fifo_run (actor_init 0))) = [Object_message (Method 1) [5] None] \<and>
   (\<exists>ws s'. run unit_body ws (the (run unit_body fifo_run (actor_init 0))) = Some s' \<and>
      Sem_wait_interrupted \<notin> set ws \<and>
      executed s' = [Object_message (Method 0) [] None, Object_message (Method 1) [5] None] \<and>
      m_messages s' = [] \<and> m_thread s' = At_sem_wait) \<and>
   run unit_body fifo_interrupted (actor_init 0) =
     Some (the (run unit_body fifo_interrupted (actor_init 0))) \<and>
   m_thread (the (run unit_body fifo_interrupted (actor_init 0))) = At_pop \<and>
   m_messages (the (run unit_body fifo_interrupted (actor_init 0))) =
     [Object_message (Method 0) [] None, Object_message (Method 1) [5] None] \<and>
   executed (the (run unit_body fifo_interrupted (actor_init 0))) = [] \<and>
   (\<exists>w s'. run unit_body [Pop, Exec w] (the (run unit_body fifo_interrupted (actor_init 0))) = Some s' \<and>
      executed s' = [Object_message (Method 0) [] None] \<and>
      m_messages s' = [Object_message (Method 1) [5] None])"
proof -
  let ?s = "the (run unit_body fifo_run (actor_init 0))"
  let ?u = "the (run unit_body fifo_interrupted (actor_init 0))"
  have r: "run unit_body fifo_run (actor_init 0) = Some ?s"
    by (simp add: fifo_run_def model_defs)
  have v: "m_thread ?s = At_loop_test" "m_loop ?s" "length (m_messages ?s) \<le> m_sem ?s"
    "enqueued ?s = [Object_message (Method 0) [] None, Object_message (Method 1) [5] None]"
    "executed ?s = [Object_message (Method 0) [] None]"
    "m_messages ?s = [Object_message (Method 1) [5] None]"
    by (simp_all add: fifo_run_def model_defs)
  have n: "\<not> list_ex is_exit (m_messages ?s)"
    by (simp add: v is_exit_def)
  have q: "run unit_body fifo_interrupted (actor_init 0) = Some ?u"
    by (simp add: fifo_interrupted_def model_defs)
  have u: "m_thread ?u = At_pop"
    "m_messages ?u = [Object_message (Method 0) [] None, Object_message (Method 1) [5] None]"
    "executed ?u = []"
    by (simp_all add: fifo_interrupted_def model_defs)
  note th = fifo_up_to_exit [OF r]
  from th v(1-3) have "\<exists>ws s'. run unit_body ws ?s = Some s' \<and> Sem_wait_interrupted \<notin> set ws \<and>
      (if list_ex is_exit (m_messages ?s)
       then executed s' = executed ?s @ takeWhile (\<lambda>m. \<not> is_exit m) (m_messages ?s) @
              [Object_message Actor_exit [] None] \<and> m_thread s' = Thread_returned
       else executed s' = executed ?s @ m_messages ?s \<and> m_messages s' = [] \<and>
            m_thread s' = At_sem_wait)"
    by blast
  with n have "\<exists>ws s'. run unit_body ws ?s = Some s' \<and> Sem_wait_interrupted \<notin> set ws \<and>
      executed s' = executed ?s @ m_messages ?s \<and> m_messages s' = [] \<and> m_thread s' = At_sem_wait"
    by (simp only: if_False)
  with v have 1: "\<exists>ws s'. run unit_body ws ?s = Some s' \<and> Sem_wait_interrupted \<notin> set ws \<and>
      executed s' = [Object_message (Method 0) [] None, Object_message (Method 1) [5] None] \<and>
      m_messages s' = [] \<and> m_thread s' = At_sem_wait"
    by simp
  note tu = fifo_up_to_exit [OF q, of "Object_message (Method 0) [] None"
      "[Object_message (Method 1) [5] None]"]
  from tu u(1,2) have "\<exists>w s'. run unit_body [Pop, Exec w] ?u = Some s' \<and>
      executed s' = executed ?u @ [Object_message (Method 0) [] None] \<and>
      m_messages s' = [Object_message (Method 1) [5] None]"
    by blast
  with u(3) have 2: "\<exists>w s'. run unit_body [Pop, Exec w] ?u = Some s' \<and>
      executed s' = [Object_message (Method 0) [] None] \<and>
      m_messages s' = [Object_message (Method 1) [5] None]"
    by simp
  from r v q u 1 2 show ?thesis by blast
qed

subsection \<open>C2\<close>

text \<open>
  C2, on the code. The specification says that \<^verbatim>\<open>set\<close> releases every thread suspended in
  \<^verbatim>\<open>get()\<close> on the result. \<^verbatim>\<open>set\<close> calls \<^verbatim>\<open>pthread_cond_signal\<close>, which releases one
  of them. In the run \<open>two_waiters\<close> a caller enqueues a call, copies the result it
  received, and threads 1 and 2 call \<^verbatim>\<open>get()\<close> on the two handles before the worker
  executes the message; both are suspended. The signal of the worker's \<^verbatim>\<open>set\<close> has a
  thread to wake, so it wakes one: whichever it is, it returns 42 from \<^verbatim>\<open>get()\<close>, and the
  other is still suspended on the condition variable with the value set, and cannot
  return from \<^verbatim>\<open>get()\<close>.
\<close>

theorem set_wakes_one_waiter:
  "map_option (\<lambda>s. map_option m_cond (heap (futures s) 100))
     (run unit_body two_waiters (actor_init 0)) = Some (Some [1, 2]) \<and>
   run unit_body (two_waiters @ [Exec None]) (actor_init 0) = None \<and>
   map_option (\<lambda>s. (threads (futures s) 1, threads (futures s) 2, heap (futures s) 100))
     (run unit_body (two_waiters @ [Exec (Some 1), Result_op (Wakeup 1)]) (actor_init 0)) =
     Some (Returned 42, In_cond_wait 100,
           Some \<lparr>m_ref_count = 2, m_value = 42, m_value_set = True, m_cond = [2]\<rparr>) \<and>
   run unit_body (two_waiters @ [Exec (Some 1), Result_op (Wakeup 1), Result_op (Wakeup 2)])
     (actor_init 0) = None \<and>
   map_option (\<lambda>s. (threads (futures s) 1, threads (futures s) 2, heap (futures s) 100))
     (run unit_body (two_waiters @ [Exec (Some 2), Result_op (Wakeup 2)]) (actor_init 0)) =
     Some (In_cond_wait 100, Returned 42,
           Some \<lparr>m_ref_count = 2, m_value = 42, m_value_set = True, m_cond = [1]\<rparr>)"
  by (simp add: two_waiters_def model_defs)

subsection \<open>C3\<close>

text \<open>
  C3, as the code has it. The specification says that every invocation enqueued before the
  destructor was entered has been executed when the destructor returns. \<^verbatim>\<open>exit()\<close> is a
  protected member, so a derived class can enqueue the exit message itself. In the run
  below it does so, then enqueues a call of member function 0, and then the actor is
  destroyed: the join returns with the first exit message executed and the call still in
  the list.
\<close>

theorem destructor_counterexample:
  "enqueued (the (run unit_body early_exit (actor_init 0))) =
     [Object_message Actor_exit [] None, Object_message (Method 0) [] None] \<and>
   run unit_body (early_exit @ Destructor 2 # short_destruction) (actor_init 0) =
     Some (the (run unit_body (early_exit @ Destructor 2 # short_destruction) (actor_init 0))) \<and>
   joined (the (run unit_body (early_exit @ Destructor 2 # short_destruction) (actor_init 0))) \<and>
   executed (the (run unit_body (early_exit @ Destructor 2 # short_destruction) (actor_init 0))) =
     [Object_message Actor_exit [] None] \<and>
   m_messages (the (run unit_body (early_exit @ Destructor 2 # short_destruction) (actor_init 0))) =
     [Object_message (Method 0) [] None, Object_message Actor_exit [] None]"
  by (simp add: early_exit_def short_destruction_def model_defs)

text \<open>
  C3, amended. The destructor enqueues the exit message at the tail of the list and joins
  the worker thread. When the join has returned, the worker has executed exactly the
  messages enqueued before the first exit message, and then that exit message; so if no
  exit message was enqueued before the destructor was entered, every message enqueued
  before it has been executed, followed by the destructor's exit message. After the join
  has returned the worker thread has returned and no message is executed any more.
\<close>

theorem destructor_drains_to_first_exit:
  assumes "run body evs (actor_init st) = Some s"
    and "step body (Destructor t) s = Some s1"
    and "run body evs' s1 = Some s2"
    and "joined s2"
  shows "executed s2 =
           takeWhile (\<lambda>m. \<not> is_exit m) (enqueued s2) @ [Object_message Actor_exit [] None] \<and>
         (\<not> list_ex is_exit (enqueued s) \<longrightarrow>
            executed s2 = enqueued s @ [Object_message Actor_exit [] None]) \<and>
         (\<forall>evs'' s3. run body evs'' s2 = Some s3 \<longrightarrow>
            executed s3 = executed s2 \<and> m_thread s3 = Thread_returned)"
proof -
  from assms(1-3) have r: "run body (evs @ Destructor t # evs') (actor_init st) = Some s2"
    by (simp add: run_append)
  note j = joined_executed [OF r assms(4)]
  from step_Destructor [OF assms(2)]
  have "enqueued s1 = enqueued s @ [Object_message Actor_exit [] None]"
    by (simp add: push_back_def)
  with run_enqueued [OF assms(3)] obtain more where
    e: "enqueued s2 = enqueued s @ Object_message Actor_exit [] None # more" by auto
  have "executed s2 = enqueued s @ [Object_message Actor_exit [] None]"
    if "\<not> list_ex is_exit (enqueued s)"
  proof -
    from that have "\<forall>m\<in>set (enqueued s). \<not> is_exit m" by (simp add: list_ex_iff)
    then have "takeWhile (\<lambda>m. \<not> is_exit m) (enqueued s @ Object_message Actor_exit [] None # more) =
        enqueued s @ takeWhile (\<lambda>m. \<not> is_exit m) (Object_message Actor_exit [] None # more)"
      by (intro takeWhile_append2) blast
    with j(1) e show ?thesis by (simp add: is_exit_def)
  qed
  moreover have "\<forall>evs'' s3. run body evs'' s2 = Some s3 \<longrightarrow>
            executed s3 = executed s2 \<and> m_thread s3 = Thread_returned"
    using returned_run [OF j(2)] by blast
  ultimately show ?thesis using j(1) by blast
qed

theorem destructor_drains_to_first_exit_witness:
  "run unit_body before_destruction (actor_init 0) =
     Some (the (run unit_body before_destruction (actor_init 0))) \<and>
   step unit_body (Destructor 2) (the (run unit_body before_destruction (actor_init 0))) =
     Some (the (step unit_body (Destructor 2) (the (run unit_body before_destruction (actor_init 0))))) \<and>
   run unit_body destruction
       (the (step unit_body (Destructor 2) (the (run unit_body before_destruction (actor_init 0))))) =
     Some (the (run unit_body (before_destruction @ Destructor 2 # destruction) (actor_init 0))) \<and>
   joined (the (run unit_body (before_destruction @ Destructor 2 # destruction) (actor_init 0))) \<and>
   \<not> list_ex is_exit (enqueued (the (run unit_body before_destruction (actor_init 0)))) \<and>
   enqueued (the (run unit_body before_destruction (actor_init 0))) = [Object_message (Method 0) [] None] \<and>
   executed (the (run unit_body (before_destruction @ Destructor 2 # destruction) (actor_init 0))) =
     [Object_message (Method 0) [] None, Object_message Actor_exit [] None]"
proof -
  let ?s = "the (run unit_body before_destruction (actor_init 0))"
  let ?s1 = "the (step unit_body (Destructor 2) ?s)"
  let ?s2 = "the (run unit_body (before_destruction @ Destructor 2 # destruction) (actor_init 0))"
  have r: "run unit_body before_destruction (actor_init 0) = Some ?s"
    by (simp add: before_destruction_def model_defs)
  have d: "step unit_body (Destructor 2) ?s = Some ?s1"
    by (simp add: before_destruction_def model_defs)
  have r2: "run unit_body destruction ?s1 = Some ?s2"
    by (simp add: before_destruction_def destruction_def model_defs)
  have v: "joined ?s2" "\<not> list_ex is_exit (enqueued ?s)"
    "enqueued ?s = [Object_message (Method 0) [] None]"
    by (simp_all add: before_destruction_def destruction_def model_defs is_exit_def)
  from destructor_drains_to_first_exit [OF r d r2 v(1)] v(2)
  have "executed ?s2 = enqueued ?s @ [Object_message Actor_exit [] None]" by blast
  with v(3) have "executed ?s2 = [Object_message (Method 0) [] None, Object_message Actor_exit [] None]"
    by simp
  with v r d r2 show ?thesis by blast
qed

subsection \<open>C4\<close>

text \<open>
  C4. The reference count of a result's shared storage is the number of live handles
  that alias it: it is 1 for the creating handle, a copy construction and the source of
  an assignment add one, a destruction and the target of an assignment take one away,
  and the storage is deleted exactly when the count reaches zero, never while a handle
  still points to it. In every reachable state of the system (the handles held by
  callers and those held by messages), an address with no storage has no handle, and the
  count of a stored data object is the number of handles pointing to it, which is not
  zero.
\<close>

theorem ref_count_is_number_of_handles:
  assumes "run body evs (actor_init st) = Some s"
  shows "case heap (futures s) a of
           None \<Rightarrow> aliases a (handles (futures s)) = 0
         | Some d \<Rightarrow> unat (m_ref_count d) = aliases a (handles (futures s)) \<and>
                     0 < aliases a (handles (futures s))"
proof -
  from assms have "tallied (heap (futures s)) (handles (futures s)) a"
    by (simp add: reachable_counted counted_tallied)
  then show ?thesis by (simp add: tallied_def split: option.splits)
qed

theorem ref_count_is_number_of_handles_witness:
  "run unit_body handles_run (actor_init 0) = Some (the (run unit_body handles_run (actor_init 0))) \<and>
   map_option m_ref_count (heap (futures (the (run unit_body handles_run (actor_init 0)))) 100) = Some 2 \<and>
   aliases 100 (handles (futures (the (run unit_body handles_run (actor_init 0))))) = 2 \<and>
   heap (futures (the (run unit_body handles_run (actor_init 0)))) 200 = None \<and>
   aliases 200 (handles (futures (the (run unit_body handles_run (actor_init 0))))) = 0 \<and>
   map_option m_ref_count (heap (futures (the (run unit_body handles_run (actor_init 0)))) 300) = Some 2 \<and>
   aliases 300 (handles (futures (the (run unit_body handles_run (actor_init 0))))) = 2"
proof -
  have r: "run unit_body handles_run (actor_init 0) = Some (the (run unit_body handles_run (actor_init 0)))"
    by (simp add: handles_run_def model_defs)
  have h: "map_option m_ref_count (heap (futures (the (run unit_body handles_run (actor_init 0)))) 100) = Some 2"
    "heap (futures (the (run unit_body handles_run (actor_init 0)))) 200 = None"
    "map_option m_ref_count (heap (futures (the (run unit_body handles_run (actor_init 0)))) 300) = Some 2"
    by (simp_all add: handles_run_def model_defs)
  from h ref_count_is_number_of_handles [OF r, of 100] ref_count_is_number_of_handles [OF r, of 200]
    ref_count_is_number_of_handles [OF r, of 300]
  show ?thesis using r by (auto split: option.splits)
qed

subsection \<open>C5\<close>

text \<open>
  C5. Set and get round trip: after \<^verbatim>\<open>set(v)\<close> through a handle, \<^verbatim>\<open>get()\<close> through any
  handle of the same result returns \<open>v\<close>. In particular, when the worker has executed the
  message of a call of a member function, \<^verbatim>\<open>get()\<close> on the result that \<^verbatim>\<open>put\<close> gave to
  the caller returns what the member function returned (42 in the concrete run). That is
  so for a \<^verbatim>\<open>get()\<close> called after the \<^verbatim>\<open>set\<close>, which returns at once, and for a \<^verbatim>\<open>get()\<close>
  called before it, as in \<^verbatim>\<open>put(f).get()\<close>: the thread that the signal of \<^verbatim>\<open>set\<close> wakes
  (or that had left the wait and not yet returned) reads the value that was set.
\<close>

theorem set_get_round_trip:
  "(result_step (Set h v w) fs = Some fs1 \<and> m_data fs h' = m_data fs h \<and>
      \<not> blocked (threads fs1 t) \<longrightarrow>
      (\<exists>fs2. result_step (Get t h') fs1 = Some fs2 \<and> threads fs2 t = Returned v)) \<and>
   (run body evs (actor_init st) = Some s \<and>
      m_thread s = At_exec (Object_message (Method f) args (Some hm)) \<and>
      m_data (futures s) r = m_data (futures s) hm \<and> r \<notin> set (owned s) \<and>
      step body (Exec w') s = Some s' \<and> \<not> blocked (threads (futures s') t') \<longrightarrow>
      (\<exists>s''. step body (Result_op (Get t' r)) s' = Some s'' \<and>
         threads (futures s'') t' = Returned (snd (body f args (derived s))))) \<and>
   (result_step (Set h v w) fs = Some fs1 \<and> m_data fs h = Some a \<and>
      (w = Some u \<or> threads fs u = Woken a) \<longrightarrow>
      (\<exists>fs2. result_step (Wakeup u) fs1 = Some fs2 \<and> threads fs2 u = Returned v)) \<and>
   (run body evs (actor_init st) = Some s \<and>
      m_thread s = At_exec (Object_message (Method f) args (Some hm)) \<and>
      m_data (futures s) hm = Some a' \<and> m_data (futures s) r = Some a' \<and> r \<notin> set (owned s) \<and>
      step body (Exec w') s = Some s' \<and> (w' = Some u' \<or> threads (futures s) u' = Woken a') \<longrightarrow>
      (\<exists>s''. step body (Result_op (Wakeup u')) s' = Some s'' \<and>
         threads (futures s'') u' = Returned (snd (body f args (derived s)))))"
proof -
  have "\<exists>fs2. result_step (Get t h') fs1 = Some fs2 \<and> threads fs2 t = Returned v"
    if a: "result_step (Set h v w) fs = Some fs1 \<and> m_data fs h' = m_data fs h \<and>
      \<not> blocked (threads fs1 t)"
  proof -
    from a Set_effect [of h v w fs fs1 h'] obtain a d1 where "m_data fs1 h' = Some a"
      "heap fs1 a = Some d1" "m_value d1 = v" "m_value_set d1" by blast
    with a Get_of_set [of fs1 h' a d1 t] show ?thesis by simp
  qed
  moreover have "\<exists>fs2. result_step (Wakeup u) fs1 = Some fs2 \<and> threads fs2 u = Returned v"
    if a: "result_step (Set h v w) fs = Some fs1 \<and> m_data fs h = Some a \<and>
      (w = Some u \<or> threads fs u = Woken a)"
  proof -
    from a Set_wakes [of h v w fs fs1 a u] obtain d1 where "threads fs1 u = Woken a"
      "heap fs1 a = Some d1" "m_value d1 = v" by blast
    with Wakeup_reads [of fs1 u a d1] show ?thesis by simp
  qed
  moreover note Exec_then_get [of body evs st s f args hm r w' s' t']
    Exec_then_wakeup [of body evs st s f args hm a' r w' s' u']
  ultimately show ?thesis by blast
qed

theorem set_get_round_trip_witness:
  "result_step (Set 1 42 None) (the (result_run [New 1 100 0, Copy 2 1] results_init)) =
     Some (the (result_run set_then_get results_init)) \<and>
   m_data (the (result_run [New 1 100 (0 :: int), Copy 2 1] results_init)) 2 =
     m_data (the (result_run [New 1 100 (0 :: int), Copy 2 1] results_init)) 1 \<and>
   \<not> blocked (threads (the (result_run set_then_get results_init)) 5) \<and>
   map_option (\<lambda>s. threads s 5) (result_step (Get 5 2) (the (result_run set_then_get results_init))) =
     Some (Returned 42) \<and>
   run unit_body call_returning_42 (actor_init 0) =
     Some (the (run unit_body call_returning_42 (actor_init 0))) \<and>
   m_thread (the (run unit_body call_returning_42 (actor_init 0))) =
     At_exec (Object_message (Method 0) [] (Some 11)) \<and>
   m_data (futures (the (run unit_body call_returning_42 (actor_init 0)))) 10 =
     m_data (futures (the (run unit_body call_returning_42 (actor_init 0)))) 11 \<and>
   10 \<notin> set (owned (the (run unit_body call_returning_42 (actor_init 0)))) \<and>
   step unit_body (Exec None) (the (run unit_body call_returning_42 (actor_init 0))) =
     Some (the (run unit_body (call_returning_42 @ [Exec None]) (actor_init 0))) \<and>
   \<not> blocked (threads (futures (the (run unit_body (call_returning_42 @ [Exec None]) (actor_init 0)))) 1) \<and>
   snd (unit_body 0 [] (derived (the (run unit_body call_returning_42 (actor_init 0))))) = 42 \<and>
   map_option (\<lambda>s. threads (futures s) 1)
     (step unit_body (Result_op (Get 1 10))
        (the (run unit_body (call_returning_42 @ [Exec None]) (actor_init 0)))) = Some (Returned 42) \<and>
   threads (the (result_run waiting_get results_init)) 5 = In_cond_wait 100 \<and>
   m_data (the (result_run waiting_get results_init)) 1 = Some 100 \<and>
   result_step (Set 1 42 (Some 5)) (the (result_run waiting_get results_init)) =
     Some (the (result_run (waiting_get @ [Set 1 42 (Some 5)]) results_init)) \<and>
   map_option (\<lambda>s. threads s 5)
     (result_step (Wakeup 5) (the (result_run (waiting_get @ [Set 1 42 (Some 5)]) results_init))) =
     Some (Returned 42) \<and>
   run unit_body waiting_call (actor_init 0) = Some (the (run unit_body waiting_call (actor_init 0))) \<and>
   threads (futures (the (run unit_body waiting_call (actor_init 0)))) 1 = In_cond_wait 100 \<and>
   m_thread (the (run unit_body waiting_call (actor_init 0))) =
     At_exec (Object_message (Method 0) [] (Some 11)) \<and>
   m_data (futures (the (run unit_body waiting_call (actor_init 0)))) 11 = Some 100 \<and>
   m_data (futures (the (run unit_body waiting_call (actor_init 0)))) 10 = Some 100 \<and>
   10 \<notin> set (owned (the (run unit_body waiting_call (actor_init 0)))) \<and>
   step unit_body (Exec (Some 1)) (the (run unit_body waiting_call (actor_init 0))) =
     Some (the (run unit_body (waiting_call @ [Exec (Some 1)]) (actor_init 0))) \<and>
   snd (unit_body 0 [] (derived (the (run unit_body waiting_call (actor_init 0))))) = 42 \<and>
   map_option (\<lambda>s. threads (futures s) 1)
     (step unit_body (Result_op (Wakeup 1))
        (the (run unit_body (waiting_call @ [Exec (Some 1)]) (actor_init 0)))) = Some (Returned 42)"
proof -
  let ?f = "the (result_run [New 1 100 (0 :: int), Copy 2 1] results_init)"
  let ?f1 = "the (result_run set_then_get results_init)"
  let ?s = "the (run unit_body call_returning_42 (actor_init 0))"
  let ?s' = "the (run unit_body (call_returning_42 @ [Exec None]) (actor_init 0))"
  let ?g = "the (result_run waiting_get results_init)"
  let ?g1 = "the (result_run (waiting_get @ [Set 1 42 (Some 5)]) results_init)"
  let ?u = "the (run unit_body waiting_call (actor_init 0))"
  let ?u' = "the (run unit_body (waiting_call @ [Exec (Some 1)]) (actor_init 0))"
  have a: "result_step (Set 1 42 None) ?f = Some ?f1" "m_data ?f 2 = m_data ?f 1"
    "\<not> blocked (threads ?f1 5)"
    by (simp_all add: set_then_get_def model_defs)
  have b: "run unit_body call_returning_42 (actor_init 0) = Some ?s"
    "m_thread ?s = At_exec (Object_message (Method 0) [] (Some 11))"
    "m_data (futures ?s) 10 = m_data (futures ?s) 11" "10 \<notin> set (owned ?s)"
    "step unit_body (Exec None) ?s = Some ?s'" "\<not> blocked (threads (futures ?s') 1)"
    by (simp_all add: call_returning_42_def model_defs)
  have c: "snd (unit_body 0 [] (derived ?s)) = 42" by (simp add: unit_body_def)
  have d: "threads ?g 5 = In_cond_wait 100" "m_data ?g 1 = Some 100"
    "result_step (Set 1 42 (Some 5)) ?g = Some ?g1"
    by (simp_all add: waiting_get_def model_defs)
  have e: "run unit_body waiting_call (actor_init 0) = Some ?u"
    "threads (futures ?u) 1 = In_cond_wait 100"
    "m_thread ?u = At_exec (Object_message (Method 0) [] (Some 11))"
    "m_data (futures ?u) 11 = Some 100" "m_data (futures ?u) 10 = Some 100"
    "10 \<notin> set (owned ?u)" "step unit_body (Exec (Some 1)) ?u = Some ?u'"
    by (simp_all add: waiting_call_def model_defs)
  have c': "snd (unit_body 0 [] (derived ?u)) = 42" by (simp add: unit_body_def)
  note th = set_get_round_trip [of 1 42 None ?f ?f1 2 5 unit_body call_returning_42 0 ?s 0 "[]" 11 10 None ?s' 1]
  from th a obtain fs2 where "result_step (Get 5 2) ?f1 = Some fs2" "threads fs2 5 = Returned 42"
    by blast
  moreover from th b c obtain s'' where "step unit_body (Result_op (Get 1 10)) ?s' = Some s''"
    "threads (futures s'') 1 = Returned 42" by (metis (no_types, lifting))
  moreover note tw = set_get_round_trip [of 1 42 "Some 5" ?g ?g1 _ _ unit_body waiting_call 0 ?u 0 "[]" 11
      10 "Some 1" ?u' _ 100 5 100 1]
  moreover from tw d(2,3) obtain gs2 where "result_step (Wakeup 5) ?g1 = Some gs2"
    "threads gs2 5 = Returned 42" by blast
  moreover from tw e(1,3-7) c' obtain u'' where "step unit_body (Result_op (Wakeup 1)) ?u' = Some u''"
    "threads (futures u'') 1 = Returned 42" by (metis (no_types, lifting))
  ultimately show ?thesis using a b c d e c' by simp
qed

subsection \<open>C6\<close>

text \<open>
  C6, on the code. The specification says that \<^verbatim>\<open>get()\<close> never returns before \<^verbatim>\<open>set\<close>. \<^verbatim>\<open>get\<close>
  tests the flag once (\<^verbatim>\<open>if\<close>, not \<^verbatim>\<open>while\<close>) and reads the value when
  \<^verbatim>\<open>pthread_cond_wait\<close> returns. In the run \<open>spurious_wakeup\<close> a caller enqueues a call
  and calls \<^verbatim>\<open>get()\<close> on its result; the wait returns spuriously; \<^verbatim>\<open>get()\<close> returns the
  placeholder \<^verbatim>\<open>R()\<close>, which is 0, while the message is still in the list, nothing
  has been executed and the flag is clear.
\<close>

theorem get_returns_before_set:
  "map_option (\<lambda>s. (threads (futures s) 1, heap (futures s) 100, m_messages s, executed s))
     (run unit_body spurious_wakeup (actor_init 0)) =
     Some (Returned 0,
           Some \<lparr>m_ref_count = 2, m_value = 0, m_value_set = False, m_cond = []\<rparr>,
           [Object_message (Method 0) [] (Some 11)], [])"
  by (simp add: spurious_wakeup_def model_defs)

subsection \<open>C7\<close>

text \<open>
  C7. When the value of a result has been set, \<^verbatim>\<open>get\<close> through any of its handles returns
  the stored value at once: the thread is not suspended and nothing else changes. The
  flag is monotone: no operation on results clears it while the storage exists.
\<close>

theorem get_after_set_is_immediate:
  assumes "heap s a = Some d" "m_value_set d"
  shows "(m_data s h = Some a \<and> \<not> blocked (threads s t) \<longrightarrow>
            result_step (Get t h) s = Some (s\<lparr>threads := (threads s)(t := Returned (m_value d))\<rparr>)) \<and>
         (result_step e s = Some s' \<and> heap s' a = Some d' \<longrightarrow> m_value_set d') \<and>
         (futures x = s \<and> step body ev x = Some x' \<and> heap (futures x') a = Some d'' \<longrightarrow>
            m_value_set d'')"
proof -
  have "result_step (Get t h) s = Some (s\<lparr>threads := (threads s)(t := Returned (m_value d))\<rparr>)"
    if "m_data s h = Some a \<and> \<not> blocked (threads s t)"
    using that assms by (simp add: get_data_def)
  moreover have "m_value_set d'" if "result_step e s = Some s' \<and> heap s' a = Some d'"
    using that flag_monotone [OF _ assms] by blast
  moreover have "m_value_set d''"
    if "futures x = s \<and> step body ev x = Some x' \<and> heap (futures x') a = Some d''"
    using that flag_monotone_step [of body ev x x' a d d''] assms by blast
  ultimately show ?thesis by blast
qed

theorem get_after_set_is_immediate_witness:
  "heap (the (result_run set_then_get results_init)) 100 =
     Some \<lparr>m_ref_count = 2, m_value = 42, m_value_set = True, m_cond = []\<rparr> \<and>
   m_value_set \<lparr>m_ref_count = 2, m_value = 42 :: int, m_value_set = True, m_cond = []\<rparr> \<and>
   m_data (the (result_run set_then_get results_init)) 2 = Some 100 \<and>
   \<not> blocked (threads (the (result_run set_then_get results_init)) 5) \<and>
   result_step (Destroy 1) (the (result_run set_then_get results_init)) =
     Some (the (result_run (set_then_get @ [Destroy 1]) results_init)) \<and>
   heap (the (result_run (set_then_get @ [Destroy 1]) results_init)) 100 =
     Some \<lparr>m_ref_count = 1, m_value = 42, m_value_set = True, m_cond = []\<rparr> \<and>
   futures ((actor_init (0 :: nat))\<lparr>futures := the (result_run set_then_get results_init)\<rparr>) =
     the (result_run set_then_get results_init) \<and>
   step unit_body (Result_op (Set 2 7 None))
       ((actor_init 0)\<lparr>futures := the (result_run set_then_get results_init)\<rparr>) =
     Some ((actor_init 0)\<lparr>futures := the (result_run (set_then_get @ [Set 2 7 None]) results_init)\<rparr>) \<and>
   heap (futures ((actor_init (0 :: nat))
       \<lparr>futures := the (result_run (set_then_get @ [Set 2 7 None]) results_init)\<rparr>)) 100 =
     Some \<lparr>m_ref_count = 2, m_value = 7, m_value_set = True, m_cond = []\<rparr> \<and>
   map_option (\<lambda>s. threads s 5) (result_step (Get 5 2) (the (result_run set_then_get results_init))) =
     Some (Returned 42) \<and>
   map_option heap (result_step (Get 5 2) (the (result_run set_then_get results_init))) =
     Some (heap (the (result_run set_then_get results_init)))"
proof -
  let ?s = "the (result_run set_then_get results_init)"
  let ?d = "\<lparr>m_ref_count = 2, m_value = 42 :: int, m_value_set = True, m_cond = []\<rparr>"
  have h: "heap ?s 100 = Some ?d" "m_value_set ?d" "m_data ?s 2 = Some 100" "\<not> blocked (threads ?s 5)"
    by (simp_all add: set_then_get_def model_defs)
  have k: "result_step (Destroy 1) ?s = Some (the (result_run (set_then_get @ [Destroy 1]) results_init))"
    "heap (the (result_run (set_then_get @ [Destroy 1]) results_init)) 100 =
       Some \<lparr>m_ref_count = 1, m_value = 42, m_value_set = True, m_cond = []\<rparr>"
    "futures ((actor_init (0 :: nat))\<lparr>futures := ?s\<rparr>) = ?s"
    "step unit_body (Result_op (Set 2 7 None)) ((actor_init 0)\<lparr>futures := ?s\<rparr>) =
       Some ((actor_init 0)\<lparr>futures := the (result_run (set_then_get @ [Set 2 7 None]) results_init)\<rparr>)"
    "heap (futures ((actor_init (0 :: nat))
       \<lparr>futures := the (result_run (set_then_get @ [Set 2 7 None]) results_init)\<rparr>)) 100 =
     Some \<lparr>m_ref_count = 2, m_value = 7, m_value_set = True, m_cond = []\<rparr>"
    by (simp_all add: set_then_get_def model_defs)
  from get_after_set_is_immediate [OF h(1,2), of 2 5] h(3,4)
  have "result_step (Get 5 2) ?s = Some (?s\<lparr>threads := (threads ?s)(5 := Returned (m_value ?d))\<rparr>)"
    by blast
  with h k show ?thesis by simp
qed

subsection \<open>C8\<close>

text \<open>
  C8, on the code. The specification says that member functions of every arity from 0 to 9 can
  be enqueued, with void and non-void return types. The message classes exist for 0 to 9
  arguments, but \<^verbatim>\<open>put\<close> is declared for 0, 1 and 2 arguments only, and in the primary
  template of \<^verbatim>\<open>invoker\<close> the \<^verbatim>\<open>exec\<close> overloads for 2 to 9 arguments take
  \<^verbatim>\<open>result<void>\<close> and a void member function. So a call compiles exactly for 0 or 1
  arguments, and for 2 arguments of a void member function.
\<close>

theorem put_ladder_stops_at_two:
  "(put_template r n = Inr () \<longleftrightarrow> n \<le> 1 \<or> n = 2 \<and> r = Void) \<and>
   put_template Void 3 = Inl No_matching_put \<and>
   put_template Non_void 3 = Inl No_matching_put \<and>
   put_template Void 9 = Inl No_matching_put \<and>
   put_template Non_void 2 = Inl No_matching_exec"
proof -
  consider "n = 0" | "n = 1" | "n = 2" | "2 < n" by arith
  then have "put_template r n = Inr () \<longleftrightarrow> n \<le> 1 \<or> n = 2 \<and> r = Void"
    by cases (cases r; simp add: put_template_def put_overloads_def object_messages_def)+
  then show ?thesis
    by (simp add: put_template_def put_overloads_def object_messages_def)
qed

subsection \<open>C9\<close>

text \<open>
  C9. A message enqueued with \<^verbatim>\<open>put\<close> after the exit message is accepted like any
  other, with or without a result (\<^verbatim>\<open>put\<close> does not look at the loop flag), and is
  never executed: at any time
  the messages executed are an initial part of the messages enqueued that ends, at the
  latest, with the first exit message; the worker leaves the loop right after executing
  the exit message, with the list as it was, and once it has returned nothing is
  executed any more.
\<close>

theorem behind_exit_never_executed:
  assumes "run body evs (actor_init st) = Some s"
  shows "(can_call s t \<and> put_template Void (length args) = Inr () \<longrightarrow>
            step body (Put t f args None) s =
              Some (push_back t (Object_message (Method f) args None) s)) \<and>
         (can_call s t \<and> put_template Non_void (length args) = Inr () \<and>
          m_data (futures s) h = None \<and> m_data (futures s) hm = None \<and> h \<noteq> hm \<and>
          heap (futures s) a = None \<and> Suc (length (handles (futures s))) < max_handles \<longrightarrow>
            step body (Put t f args (Some (h, hm, a))) s =
              Some (push_back t (Object_message (Method f) args (Some hm))
                (s\<lparr>futures := (futures s)
                   \<lparr>heap := (heap (futures s))(a := Some (inc_ref (data_init 0))),
                    handles := (hm, a) # (h, a) # handles (futures s)\<rparr>\<rparr>))) \<and>
         executed s = take (length (executed s)) (enqueued s) \<and>
         length (executed s) \<le> Suc (length (takeWhile (\<lambda>m. \<not> is_exit m) (enqueued s))) \<and>
         (m_thread s = At_exec (Object_message Actor_exit [] None) \<longrightarrow>
            (\<exists>s'. run body [Exec w, Loop_test] s = Some s' \<and> m_thread s' = Thread_returned \<and>
                  m_messages s' = m_messages s)) \<and>
         (m_thread s = Thread_returned \<longrightarrow>
            (\<forall>evs' s'. run body evs' s = Some s' \<longrightarrow> executed s' = executed s))"
proof -
  have "\<exists>s'. run body [Exec w, Loop_test] s = Some s' \<and> m_thread s' = Thread_returned \<and>
                  m_messages s' = m_messages s"
    if "m_thread s = At_exec (Object_message Actor_exit [] None)"
    using that by (simp add: exec_def delete_message_def exit_actor_def)
  moreover have "\<forall>evs' s'. run body evs' s = Some s' \<longrightarrow> executed s' = executed s"
    if "m_thread s = Thread_returned"
    using returned_run [OF that] by blast
  moreover have "step body (Put t f args None) s =
              Some (push_back t (Object_message (Method f) args None) s)"
    if "can_call s t \<and> put_template Void (length args) = Inr ()"
    using that by simp
  moreover have "step body (Put t f args (Some (h, hm, a))) s =
              Some (push_back t (Object_message (Method f) args (Some hm))
                (s\<lparr>futures := (futures s)
                   \<lparr>heap := (heap (futures s))(a := Some (inc_ref (data_init 0))),
                    handles := (hm, a) # (h, a) # handles (futures s)\<rparr>\<rparr>))"
    if "can_call s t \<and> put_template Non_void (length args) = Inr () \<and>
          m_data (futures s) h = None \<and> m_data (futures s) hm = None \<and> h \<noteq> hm \<and>
          heap (futures s) a = None \<and> Suc (length (handles (futures s))) < max_handles"
    using that by (intro Put_accepted) simp_all
  ultimately show ?thesis using executed_prefix [OF assms] by blast
qed

theorem behind_exit_never_executed_witness:
  "run unit_body exit_then_put (actor_init 0) = Some (the (run unit_body exit_then_put (actor_init 0))) \<and>
   can_call (the (run unit_body exit_then_put (actor_init 0))) 3 \<and>
   put_template Void (length [7, 8 :: int]) = Inr () \<and>
   m_thread (the (run unit_body exit_then_put (actor_init 0))) = Thread_returned \<and>
   m_messages (the (run unit_body (exit_then_put @ [Put 3 1 [7, 8] None]) (actor_init 0))) =
     [Object_message (Method 0) [] None, Object_message (Method 1) [7, 8] None] \<and>
   executed (the (run unit_body exit_then_put (actor_init 0))) = [Object_message Actor_exit [] None] \<and>
   executed (the (run unit_body (exit_then_put @ [Put 3 1 [7, 8] None, Sem_post 3]) (actor_init 0))) =
     [Object_message Actor_exit [] None]"
proof -
  let ?s = "the (run unit_body exit_then_put (actor_init 0))"
  have r: "run unit_body exit_then_put (actor_init 0) = Some ?s"
    by (simp add: exit_then_put_def model_defs)
  have v: "can_call ?s 3" "put_template Void (length [7, 8 :: int]) = Inr ()"
    "m_thread ?s = Thread_returned" "executed ?s = [Object_message Actor_exit [] None]"
    "m_messages ?s = [Object_message (Method 0) [] None]"
    by (simp_all add: exit_then_put_def model_defs)
  note c = behind_exit_never_executed [OF r, of 3 "[7, 8]" 1 _ _ _ None]
  from c v have p: "step unit_body (Put 3 1 [7, 8] None) ?s =
      Some (push_back 3 (Object_message (Method 1) [7, 8] None) ?s)" by blast
  have q: "run unit_body [Put 3 1 [7, 8] None, Sem_post 3] ?s =
      Some (the (run unit_body [Put 3 1 [7, 8] None, Sem_post 3] ?s))"
    by (simp add: exit_then_put_def model_defs)
  from c v(3) have "\<forall>evs' s'. run unit_body evs' ?s = Some s' \<longrightarrow> executed s' = executed ?s"
    by blast
  with q have "executed (the (run unit_body [Put 3 1 [7, 8] None, Sem_post 3] ?s)) = executed ?s"
    by blast
  moreover have "run unit_body (exit_then_put @ [Put 3 1 [7, 8] None, Sem_post 3]) (actor_init 0) =
      run unit_body [Put 3 1 [7, 8] None, Sem_post 3] ?s"
    by (simp only: run_append) (subst r, simp only: option.case)
  moreover have "run unit_body (exit_then_put @ [Put 3 1 [7, 8] None]) (actor_init 0) =
      step unit_body (Put 3 1 [7, 8] None) ?s"
    by (simp only: run_append) (subst r, simp only: option.case run.simps split: option.splits, simp)
  ultimately show ?thesis using r v p by (simp add: push_back_def)
qed

subsection \<open>C10\<close>

text \<open>
  C10, on the code. The specification says that the assertion of the worker loop is
  valid: the semaphore count never exceeds the number of messages in the list, and the
  list is not empty whenever \<^verbatim>\<open>sem_wait\<close> has returned. The worker calls
  \<^verbatim>\<open>sem_wait(&m_sem);\<close> and does not look at what it returns, and \<^verbatim>\<open>sem_wait\<close> also
  returns, without taking the semaphore, when a signal handler interrupts it. In the run
  \<open>interrupted_wait\<close> nothing is enqueued and the wait is interrupted: the worker comes
  to \<^verbatim>\<open>assert(!m_messages.empty())\<close> with the list empty, and the assertion fails. In the
  run \<open>interrupted_then_posted\<close> the wait is interrupted while a thread is between
  \<^verbatim>\<open>push_back\<close> and \<^verbatim>\<open>sem_post\<close>: the worker executes the message, the thread posts the
  semaphore, and the semaphore is 1 with the list empty; in the next iteration
  \<^verbatim>\<open>sem_wait\<close> returns with the semaphore taken and the assertion fails.
\<close>

theorem assert_fails_after_interrupted_sem_wait:
  "map_option (\<lambda>s. (m_thread s, m_messages s, m_sem s))
     (run unit_body interrupted_wait (actor_init 0)) = Some (Assert_failed, [], 0) \<and>
   map_option (\<lambda>s. (m_thread s, m_messages s, m_sem s, executed s))
     (run unit_body interrupted_then_posted (actor_init 0)) =
     Some (At_loop_test, [], 1, [Object_message (Method 0) [] None]) \<and>
   map_option (\<lambda>s. (m_thread s, m_messages s, m_sem s))
     (run unit_body (interrupted_then_posted @ [Loop_test, Sem_wait, Pop]) (actor_init 0)) =
     Some (Assert_failed, [], 0)"
  by (simp add: interrupted_wait_def interrupted_then_posted_def model_defs)

end
